theory Spec2Isabelle
  imports Complex_Main
begin

section \<open>Python values and strings\<close>

text \<open>
  A Python \<open>str\<close> is modelled as a \<open>string\<close>, each \<open>char\<close> standing for one code point
  below 256 (Latin-1).  On that range \<open>str.isspace\<close>, the regex classes \<open>\s\<close> and
  \<open>\d\<close> and Unicode lower-casing are the functions below.  Code points from 256 on are
  outside the model.  Python's \<open>int\<close> is \<open>int\<close>; the interpreter's limit on the
  length of a digit string given to \<open>int()\<close> is not modelled.
\<close>

definition is_space :: "char \<Rightarrow> bool" where
  "is_space c = (let n = (of_char c :: nat) in
     (9 \<le> n \<and> n \<le> 13) \<or> (28 \<le> n \<and> n \<le> 32) \<or> n = 133 \<or> n = 160)"

definition is_digit :: "char \<Rightarrow> bool" where
  "is_digit c = (let n = (of_char c :: nat) in 48 \<le> n \<and> n \<le> 57)"

definition py_lower :: "char \<Rightarrow> char" where
  "py_lower c = (let n = (of_char c :: nat) in
     if (65 \<le> n \<and> n \<le> 90) \<or> (192 \<le> n \<and> n \<le> 222 \<and> n \<noteq> 215)
     then char_of (n + 32) else c)"

text \<open>\<open>int(ds)\<close> for a string of decimal digits.\<close>

definition digits_to_int :: "string \<Rightarrow> int" where
  "digits_to_int ds = foldl (\<lambda>a c. 10 * a + (int (of_char c) - 48)) 0 ds"

text \<open>\<open>s.strip()\<close>: leading and trailing whitespace removed.\<close>

definition py_strip :: "string \<Rightarrow> string" where
  "py_strip s = rev (dropWhile is_space (rev (dropWhile is_space s)))"

text \<open>\<open>s.split()\<close>: the maximal runs of non-whitespace characters, in order.\<close>

fun split_aux :: "string \<Rightarrow> string \<Rightarrow> string list" where
  "split_aux cur [] = (if cur = [] then [] else [rev cur])"
| "split_aux cur (c # cs) =
     (if is_space c
      then (if cur = [] then split_aux [] cs else rev cur # split_aux [] cs)
      else split_aux (c # cur) cs)"

definition py_split :: "string \<Rightarrow> string list" where
  "py_split s = split_aux [] s"

text \<open>\<open>" ".join(ws)\<close>.\<close>

fun join_sp :: "string list \<Rightarrow> string" where
  "join_sp [] = []"
| "join_sp [w] = w"
| "join_sp (w # v # ws) = w @ CHR '' '' # join_sp (v # ws)"

text \<open>
  The values a JSON document decodes to, which are also the values stored in an item.
  A \<open>JDict\<close> lists the entries of the dictionary, each key once.
\<close>

datatype pyfloat = Finite rat | PosInf | NegInf | NaN

datatype json =
    JNull
  | JBool bool
  | JInt int
  | JFloat pyfloat
  | JStr string
  | JList "json list"
  | JDict "(string \<times> json) list"

section \<open>Exceptions\<close>

text \<open>
  Exceptions are values: an operation that can raise returns \<open>pyerr + 'a\<close>, with \<open>Inl\<close>
  for the exception, and \<open>try_bind\<close> runs the next statement only after a normal
  return.
\<close>

datatype pyerr =
    ValueError | TypeError | OverflowError | KeyError | IndexError | AttributeError
  | JSONDecodeError | RecursionError

definition try_bind :: "pyerr + 'a \<Rightarrow> ('a \<Rightarrow> pyerr + 'b) \<Rightarrow> pyerr + 'b" where
  "try_bind m f = (case m of Inl e \<Rightarrow> Inl e | Inr x \<Rightarrow> f x)"

section \<open>The duration parser\<close>

text \<open>
  One optional group \<open>(?:(\d+)U)?\<close> of the pattern, tried at the front of \<open>r\<close>: the
  digits captured and the text after the unit letter, or no capture and \<open>r\<close> itself.
\<close>

definition opt_group :: "char \<Rightarrow> string \<Rightarrow> string option \<times> string" where
  "opt_group u r =
     (let ds = takeWhile is_digit r; rest = dropWhile is_digit r in
      if ds \<noteq> [] \<and> rest \<noteq> [] \<and> hd rest = u then (Some ds, tl rest) else (None, r))"

text \<open>
  \<open>re.match(r"^PT(?:(\d+)H)?(?:(\d+)M)?$", s)\<close>: the two groups when the pattern matches.
  \<open>$\<close> holds at the end of the string and before a final newline.
\<close>

definition match_duration :: "string \<Rightarrow> (string option \<times> string option) option" where
  "match_duration s =
     (case s of
        p # t # r \<Rightarrow>
          if p = CHR ''P'' \<and> t = CHR ''T'' then
            (let (g1, r1) = opt_group CHR ''H'' r;
                 (g2, r2) = opt_group CHR ''M'' r1
             in if r2 = [] \<or> r2 = [CHR 0x0A] then Some (g1, g2) else None)
          else None
      | _ \<Rightarrow> None)"

text \<open>
  \<open>int(s)\<close> on a non-empty string of decimal digits.  CPython refuses a string of more
  than \<open>sys.get_int_max_str_digits()\<close> digits with a \<open>ValueError\<close>; leading zeros
  count.  The limit \<open>maxd\<close> is 4300 unless the interpreter is configured otherwise, 0
  switches the check off, and no other value below 640 can be set, so that the four
  digits of a year are always converted.
\<close>

definition py_int_str :: "nat \<Rightarrow> string \<Rightarrow> pyerr + int" where
  "py_int_str maxd ds =
     (if 0 < maxd \<and> maxd < length ds then Inl ValueError else Inr (digits_to_int ds))"

text \<open>\<open>int(m.group(i) or 0)\<close>.\<close>

definition group_or_0 :: "nat \<Rightarrow> string option \<Rightarrow> pyerr + int" where
  "group_or_0 maxd g =
     (case g of None \<Rightarrow> Inr 0 | Some ds \<Rightarrow> if ds = [] then Inr 0 else py_int_str maxd ds)"

definition iso8601_duration_to_minutes :: "nat \<Rightarrow> json \<Rightarrow> pyerr + int option" where
  "iso8601_duration_to_minutes maxd duration =
     (case duration of
        JStr d \<Rightarrow>
          if d = [] then Inr None
          else (case match_duration (py_strip d) of
                  None \<Rightarrow> Inr None
                | Some (g1, g2) \<Rightarrow>
                    try_bind (group_or_0 maxd g1) (\<lambda>hours.
                    try_bind (group_or_0 maxd g2) (\<lambda>minutes.
                      (let total = hours * 60 + minutes
                       in Inr (if total > 0 then Some total else None)))))
      | _ \<Rightarrow> Inr None)"

text \<open>
  The form the specification gives for a duration: \<open>PT\<close>, then an optional group of
  digits followed by \<open>H\<close>, then an optional group of digits followed by \<open>M\<close>.  A group
  is absent (\<open>None\<close>) or a non-empty string of digits.
\<close>

definition group_ok :: "string option \<Rightarrow> bool" where
  "group_ok g = (case g of None \<Rightarrow> True | Some ds \<Rightarrow> ds \<noteq> [] \<and> list_all is_digit ds)"

definition group_text :: "char \<Rightarrow> string option \<Rightarrow> string" where
  "group_text u g = (case g of None \<Rightarrow> [] | Some ds \<Rightarrow> ds @ [u])"

definition duration_form :: "string option \<Rightarrow> string option \<Rightarrow> string" where
  "duration_form hs ms = ''PT'' @ group_text CHR ''H'' hs @ group_text CHR ''M'' ms"

definition group_value :: "string option \<Rightarrow> int" where
  "group_value g = (case g of None \<Rightarrow> 0 | Some ds \<Rightarrow> digits_to_int ds)"

definition form_minutes :: "string option \<Rightarrow> string option \<Rightarrow> int" where
  "form_minutes hs ms = group_value hs * 60 + group_value ms"

text \<open>A group of digits that the interpreter converts: none, or one within the limit.\<close>

definition group_within :: "nat \<Rightarrow> string option \<Rightarrow> bool" where
  "group_within maxd g = (case g of None \<Rightarrow> True | Some ds \<Rightarrow> maxd = 0 \<or> length ds \<le> maxd)"

section \<open>Title cleaning\<close>

text \<open>
  Matching under \<open>re.IGNORECASE\<close>: a character of the text matches a literal of the
  pattern when both have the same lower-case form.
\<close>

definition ci_eq :: "char \<Rightarrow> char \<Rightarrow> bool" where
  "ci_eq p c = (py_lower c = py_lower p)"

text \<open>
  \<open>re.sub(r"\s*-\s*WORD\s*$", "", s, flags=re.IGNORECASE)\<close>, read from the end of \<open>s\<close>:
  trailing whitespace, the word, whitespace, a hyphen, and all the whitespace before it
  (the leftmost match).  The match reaches the end of \<open>s\<close>, so it is the only one;
  without a match \<open>s\<close> is returned as it is.
\<close>

definition sub_trailing :: "string \<Rightarrow> string \<Rightarrow> string" where
  "sub_trailing word s =
     (let r1 = dropWhile is_space (rev s) in
      if length word \<le> length r1 \<and> list_all2 ci_eq (rev word) (take (length word) r1) then
        (case dropWhile is_space (drop (length word) r1) of
           [] \<Rightarrow> s
         | c # r4 \<Rightarrow> if c = CHR ''-'' then rev (dropWhile is_space r4) else s)
      else s)"

text \<open>
  \<open>re.search(r"\((\d{4})\)\s*$", s)\<close>: group 1 of the match, if there is one.
\<close>

definition search_year :: "string \<Rightarrow> string option" where
  "search_year s =
     (case dropWhile is_space (rev s) of
        c6 # d4 # d3 # d2 # d1 # c1 # r \<Rightarrow>
          if c6 = CHR '')'' \<and> list_all is_digit [d1, d2, d3, d4] \<and> c1 = CHR ''(''
          then Some [d1, d2, d3, d4] else None
      | _ \<Rightarrow> None)"

text \<open>\<open>re.sub(r"\s*\(\d{4}\)\s*$", "", s)\<close>.\<close>

definition sub_year :: "string \<Rightarrow> string" where
  "sub_year s =
     (case dropWhile is_space (rev s) of
        c6 # d4 # d3 # d2 # d1 # c1 # r \<Rightarrow>
          if c6 = CHR '')'' \<and> list_all is_digit [d1, d2, d3, d4] \<and> c1 = CHR ''(''
          then rev (dropWhile is_space r) else s
      | _ \<Rightarrow> s)"

definition word_SensCritique :: string where
  "word_SensCritique = ''SensCritique''"

definition word_Film :: string where
  "word_Film = ''Film''"

text \<open>The word of the third pattern, \<open>S\<acute>erie\<close>: its second letter is e with an acute accent, U+00E9.\<close>

definition word_Serie :: string where
  "word_Serie = [CHR ''S'', CHR 0xE9, CHR ''r'', CHR ''i'', CHR ''e'']"

definition clean_title_and_year :: "string option \<Rightarrow> string option \<times> int option" where
  "clean_title_and_year text =
     (case text of
        None \<Rightarrow> (None, None)
      | Some t \<Rightarrow>
          if t = [] then (None, None)
          else
            (let s0 = py_strip (join_sp (py_split t));
                 s1 = sub_trailing word_SensCritique s0;
                 s2 = sub_trailing word_Film s1;
                 s3 = sub_trailing word_Serie s2
             in case search_year s3 of
                  None \<Rightarrow> (Some s3, None)
                | Some g \<Rightarrow> (Some (py_strip (sub_year s3)), Some (digits_to_int g))))"

text \<open>\<open>extract_year_from_date\<close>: the four digits a date string starts with, after
  \<open>strip()\<close>.\<close>

definition extract_year_from_date :: "json \<Rightarrow> int option" where
  "extract_year_from_date date_str =
     (case date_str of
        JStr d \<Rightarrow>
          if d = [] then None
          else (case py_strip d of
                  d1 # d2 # d3 # d4 # r \<Rightarrow>
                    if list_all is_digit [d1, d2, d3, d4]
                    then Some (digits_to_int [d1, d2, d3, d4]) else None
                | _ \<Rightarrow> None)
      | _ \<Rightarrow> None)"

text \<open>
  The decorations in the words of the specification.  \<open>decorated w s t\<close>: the text \<open>s\<close> is
  \<open>t\<close> followed by optional whitespace, a hyphen, optional whitespace, the word \<open>w\<close> in
  any letter case and optional whitespace, where \<open>t\<close> does not end in whitespace.
  \<open>year_ended s t d\<close>: \<open>s\<close> is \<open>t\<close> followed by optional whitespace, the four digits
  \<open>d\<close> in parentheses and optional whitespace.
\<close>

definition decorated :: "string \<Rightarrow> string \<Rightarrow> string \<Rightarrow> bool" where
  "decorated w s t \<longleftrightarrow>
     (\<exists>a b c w'. s = t @ a @ ''-'' @ b @ w' @ c
        \<and> list_all is_space a \<and> list_all is_space b \<and> list_all is_space c
        \<and> list_all2 ci_eq w w' \<and> (t = [] \<or> \<not> is_space (last t)))"

definition strips :: "string \<Rightarrow> string \<Rightarrow> string \<Rightarrow> bool" where
  "strips w s t \<longleftrightarrow> decorated w s t \<or> (t = s \<and> (\<forall>t'. \<not> decorated w s t'))"

definition year_ended :: "string \<Rightarrow> string \<Rightarrow> string \<Rightarrow> bool" where
  "year_ended s t d \<longleftrightarrow>
     (\<exists>a c. s = t @ a @ ''('' @ d @ '')'' @ c
        \<and> list_all is_space a \<and> list_all is_space c
        \<and> length d = 4 \<and> list_all is_digit d \<and> (t = [] \<or> \<not> is_space (last t)))"

text \<open>
  Auxiliary predicates for the proofs: a word without whitespace; the condition under
  which \<open>sub_trailing\<close> finds its match; the condition under which the year pattern
  matches, with the digits and the text before the opening parenthesis.
\<close>

definition no_space_word :: "string \<Rightarrow> bool" where
  "no_space_word w = (w \<noteq> [] \<and> list_all (\<lambda>c. \<not> is_space c) w)"

definition hit :: "string \<Rightarrow> string \<Rightarrow> bool" where
  "hit w s \<longleftrightarrow>
     (\<exists>r4. length w \<le> length (dropWhile is_space (rev s))
        \<and> list_all2 ci_eq (rev w) (take (length w) (dropWhile is_space (rev s)))
        \<and> dropWhile is_space (drop (length w) (dropWhile is_space (rev s))) = CHR ''-'' # r4)"

definition year_at :: "string \<Rightarrow> string \<Rightarrow> string \<Rightarrow> bool" where
  "year_at s d r \<longleftrightarrow>
     (\<exists>d1 d2 d3 d4. d = [d1, d2, d3, d4] \<and> list_all is_digit d
        \<and> dropWhile is_space (rev s) = CHR '')'' # d4 # d3 # d2 # d1 # CHR ''('' # r)"

section \<open>The crawl controller\<close>

text \<open>
  What a callback reads from a downloaded page.  The selector calls of Scrapy and
  \<open>response.urljoin\<close> belong to the framework, so their results are fields of the
  response: \<open>css_film_hrefs\<close> is \<open>response.css('a[href^="/film/"]::attr(href)').getall()\<close>,
  \<open>css_next_hrefs\<close> is \<open>response.css('a[rel="next"]::attr(href)').getall()\<close>,
  \<open>css_all_hrefs\<close> is \<open>response.css("a::attr(href)").getall()\<close>, \<open>html\<close> is
  \<open>response.text or ""\<close>.
\<close>

record response =
  url :: string
  html :: string
  css_film_hrefs :: "string list"
  css_next_hrefs :: "string list"
  css_all_hrefs :: "string list"
  urljoin :: "string \<Rightarrow> string"

text \<open>
  The state of the spider object: the configuration read in \<open>__init__\<close> and the four
  mutable attributes.  \<open>sample_rate\<close> is a Python float, given by the rational it
  denotes; an infinite or undefined rate fails the test \<open>0.0 < sample_rate < 1.0\<close> as a
  rate of 1 does.
\<close>

record spider =
  seed_urls :: "string list"
  max_items :: int
  max_pages :: int
  shuffle :: bool
  sample_rate :: rat
  seen_film_urls :: "string set"
  seen_list_pages :: "string set"
  pages_crawled :: int
  items_scheduled :: int

text \<open>
  A request yielded by a callback.  \<open>FilmRequest u\<close> is
  \<open>scrapy.Request(u, callback=self.parse_film, meta={"item": {"url": u}})\<close> and
  \<open>ListRequest u\<close> is \<open>scrapy.Request(u, callback=self.parse_list_page, dont_filter=True)\<close>.
\<close>

datatype request = FilmRequest string | ListRequest string

text \<open>
  What the program leaves open in one call of \<open>parse_list_page\<close>: the order in which the
  two sets are iterated and the outcome of the two calls of \<open>random.shuffle\<close>.
\<close>

record nondet =
  film_set_order :: "string list \<Rightarrow> string list"
  film_shuffle :: "string list \<Rightarrow> string list"
  next_set_order :: "string list \<Rightarrow> string list"
  next_shuffle :: "string list \<Rightarrow> string list"

definition init_spider :: "string list \<Rightarrow> int \<Rightarrow> int \<Rightarrow> bool \<Rightarrow> rat \<Rightarrow> spider" where
  "init_spider seeds mi mp sh sr =
     \<lparr>seed_urls = seeds, max_items = mi, max_pages = mp, shuffle = sh, sample_rate = sr,
      seen_film_urls = {}, seen_list_pages = {}, pages_crawled = 0, items_scheduled = 0\<rparr>"

definition start_requests :: "(string list \<Rightarrow> string list) \<Rightarrow> spider \<Rightarrow> request list" where
  "start_requests shuffled sp =
     map ListRequest (if shuffle sp then shuffled (seed_urls sp) else seed_urls sp)"

text \<open>\<open>p.split("?")[0]\<close>, \<open>p.startswith(pre)\<close>, \<open>sub in s\<close> and \<open>m.strip('"')\<close>.\<close>

definition before_query :: "string \<Rightarrow> string" where
  "before_query p = takeWhile (\<lambda>c. c \<noteq> CHR ''?'') p"

definition startswith :: "string \<Rightarrow> string \<Rightarrow> bool" where
  "startswith pre s = (take (length pre) s = pre)"

fun contains :: "string \<Rightarrow> string \<Rightarrow> bool" where
  "contains sub [] = (sub = [])"
| "contains sub (c # cs) = (startswith sub (c # cs) \<or> contains sub cs)"

definition strip_quotes :: "string \<Rightarrow> string" where
  "strip_quotes m =
     rev (dropWhile (\<lambda>c. c = CHR 0x22) (rev (dropWhile (\<lambda>c. c = CHR 0x22) m)))"

text \<open>
  \<open>re.findall(r'href="(/film/[^"#?]+)', html)\<close>.  \<open>match_href\<close> tries the pattern at the
  front of the text and gives group 1 with the length of the match; \<open>findall_href\<close>
  scans from left to right, the counter being the characters of the last match still to
  pass.
\<close>

definition match_href :: "string \<Rightarrow> (string \<times> nat) option" where
  "match_href s =
     (let pre = ''href='' @ [CHR 0x22] @ ''/film/'';
          run = takeWhile (\<lambda>c. c \<noteq> CHR 0x22 \<and> c \<noteq> CHR ''#'' \<and> c \<noteq> CHR ''?'')
                  (drop (length pre) s)
      in if startswith pre s \<and> run \<noteq> []
         then Some (''/film/'' @ run, length pre + length run) else None)"

fun findall_href :: "nat \<Rightarrow> string \<Rightarrow> string list" where
  "findall_href n [] = []"
| "findall_href (Suc n) (c # cs) = findall_href n cs"
| "findall_href 0 (c # cs) =
     (case match_href (c # cs) of
        Some (g, k) \<Rightarrow> g # findall_href (k - 1) cs
      | None \<Rightarrow> findall_href 0 cs)"

text \<open>\<open>re.findall(r'"/film/[^"]+"', html)\<close>: the whole matches.\<close>

definition match_quoted :: "string \<Rightarrow> (string \<times> nat) option" where
  "match_quoted s =
     (let pre = [CHR 0x22] @ ''/film/'';
          run = takeWhile (\<lambda>c. c \<noteq> CHR 0x22) (drop (length pre) s);
          rest = dropWhile (\<lambda>c. c \<noteq> CHR 0x22) (drop (length pre) s)
      in if startswith pre s \<and> run \<noteq> [] \<and> rest \<noteq> []
         then Some (pre @ run @ [CHR 0x22], length pre + length run + 1) else None)"

fun findall_quoted :: "nat \<Rightarrow> string \<Rightarrow> string list" where
  "findall_quoted n [] = []"
| "findall_quoted (Suc n) (c # cs) = findall_quoted n cs"
| "findall_quoted 0 (c # cs) =
     (case match_quoted (c # cs) of
        Some (m, k) \<Rightarrow> m # findall_quoted (k - 1) cs
      | None \<Rightarrow> findall_quoted 0 cs)"

text \<open>
  The set \<open>film_urls\<close> of paths built by the three loops, as the list of its elements
  (each once), and the list of absolute URLs made from it, in the order the set
  happens to be iterated.
\<close>

definition film_paths :: "response \<Rightarrow> string list" where
  "film_paths r =
     remdups
       (map before_query (filter (\<lambda>href. href \<noteq> []) (css_film_hrefs r))
        @ map before_query (findall_href 0 (html r))
        @ map (\<lambda>m. before_query (strip_quotes m)) (findall_quoted 0 (html r)))"

definition joined_film_urls :: "nondet \<Rightarrow> response \<Rightarrow> string list" where
  "joined_film_urls nd r =
     map (urljoin r) (filter (startswith ''/film/'') (film_set_order nd (film_paths r)))"

text \<open>\<open>int(x)\<close> on a float: truncation towards zero.\<close>

definition py_int_of :: "rat \<Rightarrow> int" where
  "py_int_of x = (if 0 \<le> x then \<lfloor>x\<rfloor> else \<lceil>x\<rceil>)"

text \<open>
  Python floats are IEEE 754 doubles; a finite double is modelled by the rational it
  denotes.  The result of an operation is the exact result rounded to the nearest double,
  ties to the even significand: \<open>round_double\<close>, with 53 significant bits and the
  smallest exponent of a subnormal.  Overflow is left out: the operands here are the
  length of a list, below \<open>2^63\<close>, and a rate below 1.
\<close>

text \<open>The number of binary digits of a positive integer.\<close>

function bit_length :: "int \<Rightarrow> nat" where
  "bit_length n = (if n \<le> 0 then 0 else Suc (bit_length (n div 2)))"
  by pat_completeness auto
termination
  by (relation "measure nat") auto

declare bit_length.simps [simp del]

definition pow2 :: "int \<Rightarrow> rat" where
  "pow2 e = (if 0 \<le> e then 2 ^ nat e else 1 / 2 ^ nat (- e))"

text \<open>The exponent \<open>e\<close> with \<open>2^e \<le> x < 2^(e+1)\<close>, for a positive \<open>x\<close>.\<close>

definition ilog2 :: "rat \<Rightarrow> int" where
  "ilog2 x =
     (let (a, b) = quotient_of x;
          d = int (bit_length a) - int (bit_length b)
      in if pow2 d \<le> x then d else d - 1)"

definition round_half_even :: "rat \<Rightarrow> int" where
  "round_half_even m =
     (let f = \<lfloor>m\<rfloor>; r = m - of_int f
      in if r < 1 / 2 then f else if 1 / 2 < r then f + 1 else if even f then f else f + 1)"

definition round_double :: "rat \<Rightarrow> rat" where
  "round_double x =
     (if x = 0 then 0
      else (let q = max (ilog2 \<bar>x\<bar> - 52) (- 1074)
            in sgn x * of_int (round_half_even (\<bar>x\<bar> / pow2 q)) * pow2 q))"

text \<open>\<open>n * x\<close> for an integer \<open>n\<close> and a float \<open>x\<close>: \<open>float(n) * x\<close>.\<close>

definition float_mul :: "nat \<Rightarrow> rat \<Rightarrow> rat" where
  "float_mul n x = round_double (round_double (of_nat n) * x)"

definition sample_films :: "spider \<Rightarrow> string list \<Rightarrow> string list" where
  "sample_films sp film_urls =
     (if 0 < sample_rate sp \<and> sample_rate sp < 1
      then (let k = max 1 (py_int_of (float_mul (length film_urls) (sample_rate sp)))
            in take (nat k) film_urls)
      else film_urls)"

text \<open>The list \<open>film_urls\<close> when the scheduling loop starts.\<close>

definition film_candidates :: "nondet \<Rightarrow> spider \<Rightarrow> response \<Rightarrow> string list" where
  "film_candidates nd sp r =
     sample_films sp
       (if shuffle sp then film_shuffle nd (joined_film_urls nd r) else joined_film_urls nd r)"

text \<open>The loop \<open>for url in film_urls\<close>: the spider afterwards and the requests yielded.\<close>

fun schedule_films :: "spider \<Rightarrow> string list \<Rightarrow> spider \<times> request list" where
  "schedule_films sp [] = (sp, [])"
| "schedule_films sp (u # us) =
     (if items_scheduled sp \<ge> max_items sp then (sp, [])
      else if u \<in> seen_film_urls sp then schedule_films sp us
      else (let sp' = sp\<lparr>seen_film_urls := insert u (seen_film_urls sp),
                         items_scheduled := items_scheduled sp + 1\<rparr>;
                (sp'', reqs) = schedule_films sp' us
            in (sp'', FilmRequest u # reqs)))"

text \<open>
  \<open>re.search(r"/\d+(\?|$)", href)\<close>: a slash, digits, and then a question mark or the
  end of the string (\<open>$\<close> also holds before a final newline).
\<close>

fun search_page_number :: "string \<Rightarrow> bool" where
  "search_page_number [] = False"
| "search_page_number (c # cs) =
     ((c = CHR ''/'' \<and>
        (let ds = takeWhile is_digit cs; rest = dropWhile is_digit cs
         in ds \<noteq> [] \<and> (rest = [] \<or> rest = [CHR 0x0A] \<or> hd rest = CHR ''?'')))
      \<or> search_page_number cs)"

definition looks_like_listing :: "string \<Rightarrow> bool" where
  "looks_like_listing href =
     ((contains ''/liste/'' href \<or> contains ''/films/'' href \<or> contains ''/top'' href)
      \<and> (search_page_number href \<or> contains ''page='' href))"

definition next_link_set :: "response \<Rightarrow> string list" where
  "next_link_set r =
     remdups
       (map (urljoin r) (filter (\<lambda>href. href \<noteq> []) (css_next_hrefs r))
        @ map (urljoin r)
            (filter (\<lambda>href. href \<noteq> [] \<and> looks_like_listing href) (css_all_hrefs r)))"

definition next_links :: "nondet \<Rightarrow> spider \<Rightarrow> response \<Rightarrow> string list" where
  "next_links nd sp r =
     (let l = next_set_order nd (next_link_set r)
      in if shuffle sp then next_shuffle nd l else l)"

text \<open>The loop \<open>for u in next_links[:8]\<close>.\<close>

fun dispatch_next :: "spider \<Rightarrow> string list \<Rightarrow> request list" where
  "dispatch_next sp [] = []"
| "dispatch_next sp (u # us) =
     (if pages_crawled sp \<ge> max_pages sp then []
      else if u \<in> seen_list_pages sp then dispatch_next sp us
      else ListRequest u # dispatch_next sp us)"

text \<open>
  \<open>parse_list_page\<close>, run to the end of the generator: the spider afterwards and the
  requests yielded, in order.  One call is taken as one step: no other callback runs
  between two of its yields.
\<close>

definition parse_list_page :: "nondet \<Rightarrow> spider \<Rightarrow> response \<Rightarrow> spider \<times> request list" where
  "parse_list_page nd sp r =
     (if url r \<in> seen_list_pages sp then (sp, [])
      else
        (let sp1 = sp\<lparr>seen_list_pages := insert (url r) (seen_list_pages sp),
                       pages_crawled := pages_crawled sp + 1\<rparr>
         in if pages_crawled sp1 > max_pages sp1 then (sp1, [])
            else
              (let (sp2, film_reqs) = schedule_films sp1 (film_candidates nd sp1 r)
               in if pages_crawled sp2 \<ge> max_pages sp2 then (sp2, film_reqs)
                  else (sp2, film_reqs @ dispatch_next sp2 (take 8 (next_links nd sp2 r))))))"

text \<open>A run over a sequence of listing-page responses, each with its open choices.\<close>

fun run_pages :: "spider \<Rightarrow> (nondet \<times> response) list \<Rightarrow> spider \<times> request list" where
  "run_pages sp [] = (sp, [])"
| "run_pages sp (ev # evs) =
     (let (sp1, reqs) = parse_list_page (fst ev) sp (snd ev);
          (sp2, reqs') = run_pages sp1 evs
      in (sp2, reqs @ reqs'))"

definition film_request_urls :: "request list \<Rightarrow> string list" where
  "film_request_urls reqs = concat (map (\<lambda>q. case q of FilmRequest u \<Rightarrow> [u] | ListRequest u \<Rightarrow> []) reqs)"

definition list_request_urls :: "request list \<Rightarrow> string list" where
  "list_request_urls reqs = concat (map (\<lambda>q. case q of FilmRequest u \<Rightarrow> [] | ListRequest u \<Rightarrow> [u]) reqs)"

text \<open>The first two statements of \<open>parse_list_page\<close> on a new URL.\<close>

definition visit :: "spider \<Rightarrow> response \<Rightarrow> spider" where
  "visit sp r = sp\<lparr>seen_list_pages := insert (url r) (seen_list_pages sp),
                      pages_crawled := pages_crawled sp + 1\<rparr>"

section \<open>The film-page extractor\<close>

text \<open>
  The interpreter and its library, as far as the program does not determine them: the
  limit on the number of digits of a converted integer, and the functions \<open>json.loads\<close>,
  \<open>float\<close> and \<open>int\<close> on a string, \<open>float\<close> on an integer (which overflows on a large
  one) and \<open>str\<close> on a value that is not a string.
\<close>

record pylib =
  int_max_str_digits :: nat
  json_loads :: "string \<Rightarrow> pyerr + json"
  float_of_str :: "string \<Rightarrow> pyerr + pyfloat"
  int_of_str :: "string \<Rightarrow> pyerr + int"
  float_of_int :: "int \<Rightarrow> pyerr + pyfloat"
  str_of :: "json \<Rightarrow> string"

definition py_float :: "pylib \<Rightarrow> json \<Rightarrow> pyerr + pyfloat" where
  "py_float lib v =
     (case v of
        JStr s \<Rightarrow> float_of_str lib s
      | JInt i \<Rightarrow> float_of_int lib i
      | JBool b \<Rightarrow> Inr (Finite (if b then 1 else 0))
      | JFloat f \<Rightarrow> Inr f
      | _ \<Rightarrow> Inl TypeError)"

definition py_int :: "pylib \<Rightarrow> json \<Rightarrow> pyerr + int" where
  "py_int lib v =
     (case v of
        JStr s \<Rightarrow> int_of_str lib s
      | JInt i \<Rightarrow> Inr i
      | JBool b \<Rightarrow> Inr (if b then 1 else 0)
      | JFloat f \<Rightarrow>
          (case f of Finite q \<Rightarrow> Inr (py_int_of q)
                   | NaN \<Rightarrow> Inl ValueError
                   | _ \<Rightarrow> Inl OverflowError)
      | _ \<Rightarrow> Inl TypeError)"

definition py_str :: "pylib \<Rightarrow> json \<Rightarrow> string" where
  "py_str lib v = (case v of JStr s \<Rightarrow> s | _ \<Rightarrow> str_of lib v)"

text \<open>Truth value of an object, \<open>isinstance\<close> tests, and the operations that need a type.\<close>

definition truthy :: "json \<Rightarrow> bool" where
  "truthy v =
     (case v of
        JNull \<Rightarrow> False
      | JBool b \<Rightarrow> b
      | JInt i \<Rightarrow> i \<noteq> 0
      | JFloat f \<Rightarrow> f \<noteq> Finite 0
      | JStr s \<Rightarrow> s \<noteq> []
      | JList xs \<Rightarrow> xs \<noteq> []
      | JDict d \<Rightarrow> d \<noteq> [])"

definition is_str :: "json \<Rightarrow> bool" where
  "is_str v = (case v of JStr s \<Rightarrow> True | _ \<Rightarrow> False)"

definition is_list :: "json \<Rightarrow> bool" where
  "is_list v = (case v of JList xs \<Rightarrow> True | _ \<Rightarrow> False)"

definition is_dict :: "json \<Rightarrow> bool" where
  "is_dict v = (case v of JDict d \<Rightarrow> True | _ \<Rightarrow> False)"

text \<open>
  \<open>d.get(k)\<close> on a dictionary given by its entries; the first entry with the key holds
  its value.
\<close>

definition py_get :: "(string \<times> json) list \<Rightarrow> string \<Rightarrow> json" where
  "py_get d k = (case map_of d k of None \<Rightarrow> JNull | Some v \<Rightarrow> v)"

text \<open>\<open>v.strip()\<close>, \<open>v.get(k)\<close>, \<open>v[k]\<close> and \<open>v[0]\<close> on an object of any type.\<close>

definition strip_method :: "json \<Rightarrow> pyerr + string" where
  "strip_method v = (case v of JStr s \<Rightarrow> Inr (py_strip s) | _ \<Rightarrow> Inl AttributeError)"

definition get_method :: "json \<Rightarrow> string \<Rightarrow> pyerr + json" where
  "get_method v k = (case v of JDict d \<Rightarrow> Inr (py_get d k) | _ \<Rightarrow> Inl AttributeError)"

definition getitem_key :: "json \<Rightarrow> string \<Rightarrow> pyerr + json" where
  "getitem_key v k =
     (case v of
        JDict d \<Rightarrow> (case map_of d k of None \<Rightarrow> Inl KeyError | Some x \<Rightarrow> Inr x)
      | _ \<Rightarrow> Inl TypeError)"

definition getitem_0 :: "json \<Rightarrow> pyerr + json" where
  "getitem_0 v =
     (case v of
        JList xs \<Rightarrow> (case xs of [] \<Rightarrow> Inl IndexError | x # _ \<Rightarrow> Inr x)
      | JStr s \<Rightarrow> (case s of [] \<Rightarrow> Inl IndexError | c # _ \<Rightarrow> Inr (JStr [c]))
      | JDict d \<Rightarrow> Inl KeyError
      | _ \<Rightarrow> Inl TypeError)"

definition as_list :: "json \<Rightarrow> json list" where
  "as_list x = (case x of JNull \<Rightarrow> [] | JList xs \<Rightarrow> xs | _ \<Rightarrow> [x])"

text \<open>
  \<open>iter_jsonld_objects\<close>: the dictionaries reached through lists and \<open>@graph\<close> entries,
  in the order the generator yields them.
\<close>

function iter_jsonld_objects :: "json \<Rightarrow> (string \<times> json) list list" where
  "iter_jsonld_objects (JList xs) = concat (map iter_jsonld_objects xs)"
| "iter_jsonld_objects (JDict d) =
     (case map_of d ''@graph'' of
        Some g \<Rightarrow> iter_jsonld_objects g
      | None \<Rightarrow> [d])"
| "iter_jsonld_objects JNull = []"
| "iter_jsonld_objects (JBool b) = []"
| "iter_jsonld_objects (JInt i) = []"
| "iter_jsonld_objects (JFloat f) = []"
| "iter_jsonld_objects (JStr s) = []"
  by pat_completeness auto
termination
proof (relation "measure size")
  show "wf (measure (size :: json \<Rightarrow> nat))" by simp
next
  fix xs :: "json list" and x
  assume "x \<in> set xs"
  then have "size x < Suc (size_list size xs)" by (induction xs) auto
  then show "(x, JList xs) \<in> measure size" by simp
next
  fix d :: "(string \<times> json) list" and g
  assume "map_of d ''@graph'' = Some g"
  then have "size g < Suc (size_list (size_prod (\<lambda>_. 0) size) d)"
    by (induction d) (auto split: if_splits)
  then show "(g, JDict d) \<in> measure size" by simp
qed

text \<open>The test on \<open>@type\<close> and the search for the first Movie object in the blocks.\<close>

definition is_movie :: "(string \<times> json) list \<Rightarrow> bool" where
  "is_movie obj =
     (let t = py_get obj ''@type'' in
      case t of
        JList xs \<Rightarrow> list_ex (\<lambda>x. x = JStr ''Movie'' \<or> x = JStr ''Film'') xs
      | _ \<Rightarrow> t = JStr ''Movie'' \<or> t = JStr ''Film'')"

fun find_movie :: "pylib \<Rightarrow> string list \<Rightarrow> (string \<times> json) list option" where
  "find_movie lib [] = None"
| "find_movie lib (raw # rest) =
     (let raw' = py_strip raw in
      if raw' = [] then find_movie lib rest
      else (case json_loads lib raw' of
              Inl e \<Rightarrow> find_movie lib rest
            | Inr data \<Rightarrow>
                (case List.find is_movie (iter_jsonld_objects data) of
                   Some movie \<Rightarrow> Some movie
                 | None \<Rightarrow> find_movie lib rest)))"

text \<open>
  An item is a dictionary from field names to values.  A film page gives the URL of the
  response, the item carried in \<open>response.meta\<close> if there is one, the texts of the
  \<open>application/ld+json\<close> script elements, and the contents of \<open>og:title\<close>, of the
  \<open>title\<close> element and of \<open>og:image\<close>, each None when the selector finds nothing.
\<close>

type_synonym item = "string \<Rightarrow> json option"

record film_page =
  film_url :: string
  meta_item :: "item option"
  ld_json :: "string list"
  og_title :: "string option"
  title_text :: "string option"
  og_image :: "string option"

definition item_get :: "item \<Rightarrow> string \<Rightarrow> json" where
  "item_get item k = (case item k of None \<Rightarrow> JNull | Some v \<Rightarrow> v)"

definition opt_str :: "string option \<Rightarrow> json" where
  "opt_str s = (case s of None \<Rightarrow> JNull | Some x \<Rightarrow> JStr x)"

definition opt_int :: "int option \<Rightarrow> json" where
  "opt_int n = (case n of None \<Rightarrow> JNull | Some i \<Rightarrow> JInt i)"

text \<open>
  The statements of \<open>parse_film\<close> under \<open>if movie:\<close>, one definition for each field of
  the movie object, applied to the value \<open>movie.get(field)\<close>.
\<close>

definition put_title :: "pylib \<Rightarrow> json \<Rightarrow> item \<Rightarrow> pyerr + item" where
  "put_title lib name item =
     (if is_str name then
        try_bind (strip_method name) (\<lambda>stripped.
          if stripped \<noteq> [] then
            (let (clean_title, guessed_year) =
                   clean_title_and_year (case name of JStr n \<Rightarrow> Some n | _ \<Rightarrow> None)
             in try_bind (strip_method name) (\<lambda>full.
                  (let item1 = item(''title'' \<mapsto> opt_str clean_title, ''full_title'' \<mapsto> JStr full)
                   in Inr (case guessed_year of
                             None \<Rightarrow> item1
                           | Some y \<Rightarrow> item1(''year'' \<mapsto> JInt y)))))
          else Inr item)
      else Inr item)"

definition put_year :: "pylib \<Rightarrow> json \<Rightarrow> item \<Rightarrow> pyerr + item" where
  "put_year lib date_published item =
     (case extract_year_from_date date_published of
        None \<Rightarrow> Inr item
      | Some y \<Rightarrow> Inr (item(''year'' \<mapsto> JInt y)))"

definition put_poster :: "pylib \<Rightarrow> json \<Rightarrow> item \<Rightarrow> pyerr + item" where
  "put_poster lib img0 item =
     try_bind (if is_dict img0 then get_method img0 ''url'' else Inr img0) (\<lambda>img.
       try_bind (if is_list img \<and> truthy img then getitem_0 img else Inr img) (\<lambda>img'.
         Inr (item(''poster_url'' \<mapsto> img'))))"

definition put_description :: "pylib \<Rightarrow> json \<Rightarrow> item \<Rightarrow> pyerr + item" where
  "put_description lib description item = Inr (item(''description'' \<mapsto> description))"

text \<open>A list built by a loop whose body may raise: the entries, or the first exception.\<close>

fun collect :: "('a \<Rightarrow> pyerr + 'b list) \<Rightarrow> 'a list \<Rightarrow> pyerr + 'b list" where
  "collect f [] = Inr []"
| "collect f (x # xs) =
     try_bind (f x) (\<lambda>ys. try_bind (collect f xs) (\<lambda>zs. Inr (ys @ zs)))"

definition genre_entry :: "json \<Rightarrow> pyerr + string list" where
  "genre_entry g =
     (if is_str g then
        try_bind (strip_method g) (\<lambda>s.
          if s \<noteq> [] then try_bind (strip_method g) (\<lambda>s'. Inr [s']) else Inr [])
      else Inr [])"

definition put_genres :: "pylib \<Rightarrow> json \<Rightarrow> item \<Rightarrow> pyerr + item" where
  "put_genres lib genres item =
     try_bind (collect genre_entry (as_list genres)) (\<lambda>gs.
       Inr (item(''genres'' \<mapsto> JList (map JStr gs))))"

definition put_duration :: "pylib \<Rightarrow> json \<Rightarrow> item \<Rightarrow> pyerr + item" where
  "put_duration lib duration item =
     try_bind (iso8601_duration_to_minutes (int_max_str_digits lib) duration) (\<lambda>minutes.
       Inr (item(''duration_min'' \<mapsto> opt_int minutes)))"

definition person_entry :: "pylib \<Rightarrow> json \<Rightarrow> pyerr + string list" where
  "person_entry lib d =
     try_bind (if is_dict d then get_method d ''name'' else Inr JNull) (\<lambda>n.
       if is_dict d \<and> truthy n then
         try_bind (getitem_key d ''name'') (\<lambda>v. Inr [py_strip (py_str lib v)])
       else if is_str d then try_bind (strip_method d) (\<lambda>s. Inr [s])
       else Inr [])"

definition put_people :: "string \<Rightarrow> pylib \<Rightarrow> json \<Rightarrow> item \<Rightarrow> pyerr + item" where
  "put_people key lib people item =
     try_bind (collect (person_entry lib) (as_list people)) (\<lambda>names.
       Inr (item(key \<mapsto> JList (map JStr (filter (\<lambda>x. x \<noteq> []) names)))))"

text \<open>\<open>try: ... = conv(v) if v is not None else None  except Exception: ... = None\<close>.\<close>

definition guarded :: "(json \<Rightarrow> pyerr + json) \<Rightarrow> json \<Rightarrow> json" where
  "guarded conv v =
     (case (if v \<noteq> JNull then conv v else Inr JNull) of Inl e \<Rightarrow> JNull | Inr x \<Rightarrow> x)"

definition put_rating :: "pylib \<Rightarrow> json \<Rightarrow> item \<Rightarrow> pyerr + item" where
  "put_rating lib aggregate item =
     (let rating = (if truthy aggregate then aggregate else JDict []) in
      if is_dict rating then
        try_bind (get_method rating ''ratingValue'') (\<lambda>rv.
          try_bind (get_method rating ''ratingCount'') (\<lambda>rc.
            Inr (item(''rating'' \<mapsto> guarded (\<lambda>v. map_sum id JFloat (py_float lib v)) rv,
                      ''rating_count'' \<mapsto> guarded (\<lambda>v. map_sum id JInt (py_int lib v)) rc))))
      else Inr item)"

definition fill_from_movie :: "pylib \<Rightarrow> (string \<times> json) list \<Rightarrow> item \<Rightarrow> pyerr + item" where
  "fill_from_movie lib movie item =
     try_bind (put_title lib (py_get movie ''name'') item) (\<lambda>item.
     try_bind (put_year lib (py_get movie ''datePublished'') item) (\<lambda>item.
     try_bind (put_poster lib (py_get movie ''image'') item) (\<lambda>item.
     try_bind (put_description lib (py_get movie ''description'') item) (\<lambda>item.
     try_bind (put_genres lib (py_get movie ''genre'') item) (\<lambda>item.
     try_bind (put_duration lib (py_get movie ''duration'') item) (\<lambda>item.
     try_bind (put_people ''directors'' lib (py_get movie ''director'') item) (\<lambda>item.
     try_bind (put_people ''actors'' lib (py_get movie ''actor'') item) (\<lambda>item.
     put_rating lib (py_get movie ''aggregateRating'') item))))))))"

text \<open>The fallbacks: one pass of the loop \<open>for txt in (ogt, tit)\<close>, the block, the image.\<close>

definition fallback_from :: "string option \<Rightarrow> item \<Rightarrow> item" where
  "fallback_from txt item =
     (if txt = None \<or> txt = Some [] then item
      else
        (let (clean_title, guessed_year) = clean_title_and_year txt;
             item1 = (if \<not> truthy (item_get item ''title'') \<and> truthy (opt_str clean_title)
                      then item(''title'' \<mapsto> opt_str clean_title) else item)
         in if item_get item1 ''year'' = JNull \<and> guessed_year \<noteq> None
            then item1(''year'' \<mapsto> opt_int guessed_year) else item1))"

definition fallback_title_year :: "film_page \<Rightarrow> item \<Rightarrow> item" where
  "fallback_title_year page item =
     (if \<not> truthy (item_get item ''title'') \<or> item_get item ''year'' = JNull
      then fallback_from (title_text page) (fallback_from (og_title page) item)
      else item)"

definition fallback_poster :: "film_page \<Rightarrow> item \<Rightarrow> item" where
  "fallback_poster page item =
     (if \<not> truthy (item_get item ''poster_url'')
      then item(''poster_url'' \<mapsto> opt_str (og_image page)) else item)"

text \<open>
  \<open>parse_film\<close>, run to the end of the generator: the items yielded, or the exception
  that leaves the callback.
\<close>

definition parse_film :: "pylib \<Rightarrow> film_page \<Rightarrow> pyerr + item list" where
  "parse_film lib page =
     (let item0 = (case meta_item page of None \<Rightarrow> Map.empty | Some i \<Rightarrow> i);
          item1 = item0(''url'' \<mapsto> JStr (film_url page))
      in try_bind (case find_movie lib (ld_json page) of
                     None \<Rightarrow> Inr item1
                   | Some movie \<Rightarrow> fill_from_movie lib movie item1) (\<lambda>item2.
           Inr [fallback_poster page (fallback_title_year page item2)]))"


section \<open>Example inputs\<close>

text \<open>
  Concrete pages for the evaluations below.  \<open>host_join\<close> is \<open>urljoin\<close> for a path that
  begins with a slash, on the site of the seed URLs; \<open>keep_order\<close> iterates a set in the
  order its elements were added and leaves a shuffled list as it was.
\<close>

definition host_join :: "string \<Rightarrow> string" where
  "host_join p = ''https://www.senscritique.com'' @ p"

definition keep_order :: nondet where
  "keep_order = \<lparr>film_set_order = (\<lambda>xs. xs), film_shuffle = (\<lambda>xs. xs),
                  next_set_order = (\<lambda>xs. xs), next_shuffle = (\<lambda>xs. xs)\<rparr>"

text \<open>A listing page with one anchor, \<open><a href="/film/top_gun/12345">\<close>.\<close>

definition top_page :: response where
  "top_page =
     \<lparr>url = ''https://www.senscritique.com/films/tops/top111'',
      html = ''<a href='' @ [CHR 0x22] @ ''/film/top_gun/12345'' @ [CHR 0x22] @ ''>Top Gun</a>'',
      css_film_hrefs = [''/film/top_gun/12345''],
      css_next_hrefs = [],
      css_all_hrefs = [''/film/top_gun/12345''],
      urljoin = host_join\<rparr>"

text \<open>The page of that film, downloaded for the listing request the anchor gave rise to.\<close>

definition top_gun_page :: response where
  "top_gun_page =
     \<lparr>url = ''https://www.senscritique.com/film/top_gun/12345'',
      html = [], css_film_hrefs = [], css_next_hrefs = [], css_all_hrefs = [],
      urljoin = host_join\<rparr>"

text \<open>A listing page with ten anchors to films and no other anchor.\<close>

definition ten_hrefs :: "string list" where
  "ten_hrefs = [''/film/a/1'', ''/film/b/2'', ''/film/c/3'', ''/film/d/4'', ''/film/e/5'',
                ''/film/f/6'', ''/film/g/7'', ''/film/h/8'', ''/film/i/9'', ''/film/j/10'']"

definition ten_films_page :: response where
  "ten_films_page =
     \<lparr>url = ''https://www.senscritique.com/liste/dix/1'',
      html = [], css_film_hrefs = ten_hrefs, css_next_hrefs = [], css_all_hrefs = [],
      urljoin = host_join\<rparr>"

text \<open>
  A film page whose only structured-data block is
  \<open>{"@type": "Movie", "duration": "PT1...1H"}\<close> with 4301 digits, and an interpreter with
  the default limit of 4300 digits whose \<open>json.loads\<close> reads that block; no other
  function of the library is reached on this page.
\<close>

definition quoted :: "string \<Rightarrow> string" where
  "quoted s = [CHR 0x22] @ s @ [CHR 0x22]"

definition long_digits :: string where
  "long_digits = replicate 4301 CHR ''1''"

definition long_duration_block :: string where
  "long_duration_block =
     ''{'' @ quoted ''@type'' @ '': '' @ quoted ''Movie'' @ '', '' @ quoted ''duration'' @ '': ''
       @ quoted (''PT'' @ long_digits @ ''H'') @ ''}''"

definition long_duration_movie :: json where
  "long_duration_movie =
     JDict [(''@type'', JStr ''Movie''), (''duration'', JStr (''PT'' @ long_digits @ ''H''))]"

definition example_lib :: pylib where
  "example_lib =
     \<lparr>int_max_str_digits = 4300,
      json_loads = (\<lambda>s. if s = long_duration_block then Inr long_duration_movie
                        else Inl JSONDecodeError),
      float_of_str = (\<lambda>s. Inl ValueError),
      int_of_str = (\<lambda>s. Inl ValueError),
      float_of_int = (\<lambda>i. Inr (Finite (round_double (of_int i)))),
      str_of = (\<lambda>v. [])\<rparr>"

definition long_duration_page :: film_page where
  "long_duration_page =
     \<lparr>film_url = ''https://www.senscritique.com/film/a/1'',
      meta_item = Some [''url'' \<mapsto> JStr ''https://www.senscritique.com/film/a/1''],
      ld_json = [long_duration_block],
      og_title = None, title_text = None, og_image = None\<rparr>"


section \<open>Properties of the duration parser\<close>

lemma dropWhile_all: "list_all P a \<Longrightarrow> dropWhile P (a @ xs) = dropWhile P xs"
  by (induction a) auto

lemma dropWhile_hd: "xs \<noteq> [] \<Longrightarrow> \<not> P (hd xs) \<Longrightarrow> dropWhile P xs = xs"
  by (cases xs) auto

lemma py_strip_pad:
  assumes "list_all is_space a" "list_all is_space b" "f \<noteq> []"
    "\<not> is_space (hd f)" "\<not> is_space (last f)"
  shows "py_strip (a @ f @ b) = f"
proof -
  have 1: "dropWhile is_space (a @ f @ b) = f @ b"
    using assms by (simp add: dropWhile_all dropWhile_hd)
  have 2: "dropWhile is_space (rev b @ rev f) = rev f"
    using assms by (simp add: dropWhile_all dropWhile_hd hd_rev)
  show ?thesis by (simp add: py_strip_def 1 2)
qed

lemma py_strip_last: "py_strip s \<noteq> [] \<Longrightarrow> \<not> is_space (last (py_strip s))"
proof -
  assume a: "py_strip s \<noteq> []"
  let ?d = "dropWhile is_space (rev (dropWhile is_space s))"
  from a have ne: "?d \<noteq> []" by (simp add: py_strip_def)
  then have "\<not> is_space (hd ?d)" by (rule hd_dropWhile)
  with ne show ?thesis by (simp add: py_strip_def last_rev)
qed

lemma opt_group_sound:
  assumes "opt_group u r = (g, r')"
  shows "group_ok g \<and> r = group_text u g @ r'"
proof (cases "takeWhile is_digit r \<noteq> [] \<and> dropWhile is_digit r \<noteq> [] \<and> hd (dropWhile is_digit r) = u")
  case True
  with assms have g: "g = Some (takeWhile is_digit r)" and r': "r' = tl (dropWhile is_digit r)"
    by (simp_all add: opt_group_def Let_def)
  from True have "dropWhile is_digit r = u # r'" unfolding r' by (cases "dropWhile is_digit r") auto
  then have "r = takeWhile is_digit r @ u # r'"
    by (metis takeWhile_dropWhile_id)
  moreover have "list_all is_digit (takeWhile is_digit r)"
    by (simp add: list_all_iff) (meson set_takeWhileD)
  ultimately show ?thesis using True g by (simp add: group_ok_def group_text_def)
next
  case False
  with assms have "g = None" "r' = r" by (auto simp: opt_group_def Let_def)
  then show ?thesis by (simp add: group_ok_def group_text_def)
qed

lemma takeWhile_all: "list_all P ds \<Longrightarrow> \<not> P u \<Longrightarrow> takeWhile P (ds @ u # r) = ds"
  by (induction ds) auto

lemma opt_group_hit:
  "ds \<noteq> [] \<Longrightarrow> list_all is_digit ds \<Longrightarrow> \<not> is_digit u \<Longrightarrow> opt_group u (ds @ u # r) = (Some ds, r)"
  by (simp add: opt_group_def Let_def takeWhile_all dropWhile_all)

lemma opt_group_miss:
  "list_all is_digit ds \<Longrightarrow> \<not> is_digit v \<Longrightarrow> v \<noteq> u \<Longrightarrow> opt_group u (ds @ v # r) = (None, ds @ v # r)"
  by (simp add: opt_group_def Let_def takeWhile_all dropWhile_all)

lemma opt_group_Nil: "opt_group u [] = (None, [])"
  by (simp add: opt_group_def)

lemma match_duration_form:
  assumes "group_ok hs" "group_ok ms"
  shows "match_duration (duration_form hs ms) = Some (hs, ms)"
proof -
  have H: "\<not> is_digit CHR ''H''" and M: "\<not> is_digit CHR ''M''" by (simp_all add: is_digit_def)
  show ?thesis
  proof (cases hs)
    case None
    show ?thesis
    proof (cases ms)
      case None
      with \<open>hs = None\<close> show ?thesis
        by (simp add: match_duration_def duration_form_def group_text_def opt_group_Nil)
    next
      case (Some ds)
      with assms have ds: "ds \<noteq> []" "list_all is_digit ds" by (simp_all add: group_ok_def)
      have "opt_group CHR ''H'' (ds @ CHR ''M'' # []) = (None, ds @ CHR ''M'' # [])"
        using ds M by (intro opt_group_miss) simp_all
      moreover have "opt_group CHR ''M'' (ds @ CHR ''M'' # []) = (Some ds, [])"
        using ds M by (intro opt_group_hit) simp_all
      ultimately show ?thesis using Some \<open>hs = None\<close>
        by (simp add: match_duration_def duration_form_def group_text_def)
    qed
  next
    case (Some hd)
    with assms have hd: "hd \<noteq> []" "list_all is_digit hd" by (simp_all add: group_ok_def)
    have 1: "opt_group CHR ''H'' (hd @ CHR ''H'' # r) = (Some hd, r)" for r
      using hd H by (intro opt_group_hit) simp_all
    show ?thesis
    proof (cases ms)
      case None
      with Some 1[of "[]"] show ?thesis
        by (simp add: match_duration_def duration_form_def group_text_def opt_group_Nil)
    next
      case (Some ds)
      with assms have ds: "ds \<noteq> []" "list_all is_digit ds" by (simp_all add: group_ok_def)
      have "opt_group CHR ''M'' (ds @ CHR ''M'' # []) = (Some ds, [])"
        using ds M by (intro opt_group_hit) simp_all
      with Some \<open>hs = Some hd\<close> 1[of "ds @ ''M''"] show ?thesis
        by (simp add: match_duration_def duration_form_def group_text_def)
    qed
  qed
qed

lemma group_or_0_value:
  "group_ok g \<Longrightarrow> group_within maxd g \<Longrightarrow> group_or_0 maxd g = Inr (group_value g)"
  by (auto simp: group_or_0_def group_value_def group_ok_def group_within_def py_int_str_def
           split: option.splits)

lemma group_or_0_cases:
  "group_ok g \<Longrightarrow>
     group_or_0 maxd g = Inr (group_value g)
     \<or> (group_or_0 maxd g = Inl ValueError \<and> \<not> group_within maxd g)"
  by (auto simp: group_or_0_def group_value_def group_ok_def group_within_def py_int_str_def
           split: option.splits)

lemma duration_form_ends:
  "group_ok hs \<Longrightarrow> group_ok ms \<Longrightarrow>
   duration_form hs ms \<noteq> [] \<and> \<not> is_space (hd (duration_form hs ms)) \<and> \<not> is_space (last (duration_form hs ms))"
  by (auto simp: duration_form_def group_text_def is_space_def split: option.splits)

lemma match_duration_sound:
  assumes "match_duration s = Some (g1, g2)" "s = [] \<or> \<not> is_space (last s)"
  shows "group_ok g1 \<and> group_ok g2 \<and> s = duration_form g1 g2"
proof -
  from assms(1) obtain r where s: "s = CHR ''P'' # CHR ''T'' # r"
    by (auto simp: match_duration_def split: list.splits if_splits)
  obtain r1 where o1: "opt_group CHR ''H'' r = (g1, r1)" 
    using assms(1) s by (auto simp: match_duration_def Let_def split: prod.splits if_splits)
  obtain r2 where o2: "opt_group CHR ''M'' r1 = (g2, r2)" and r2: "r2 = [] \<or> r2 = [CHR 0x0A]"
    using assms(1) s o1 by (auto simp: match_duration_def Let_def split: prod.splits if_splits)
  from opt_group_sound[OF o1] opt_group_sound[OF o2]
  have ok: "group_ok g1" "group_ok g2" and r: "r = group_text CHR ''H'' g1 @ group_text CHR ''M'' g2 @ r2"
    by simp_all
  have "r2 \<noteq> [CHR 0x0A]"
  proof
    assume "r2 = [CHR 0x0A]"
    with s r have "last s = CHR 0x0A" by simp
    with assms(2) s show False by (simp add: is_space_def)
  qed
  with r2 have "r2 = []" by simp
  with s r ok show ?thesis by (simp add: duration_form_def)
qed

lemma duration_of_match:
  assumes "match_duration (py_strip d) = Some (g1, g2)"
  shows "iso8601_duration_to_minutes maxd (JStr d) =
           try_bind (group_or_0 maxd g1) (\<lambda>hours.
           try_bind (group_or_0 maxd g2) (\<lambda>minutes.
             Inr (if 0 < hours * 60 + minutes then Some (hours * 60 + minutes) else None)))"
proof -
  have "d \<noteq> []" using assms by (auto simp: py_strip_def match_duration_def)
  then show ?thesis using assms by (simp add: iso8601_duration_to_minutes_def Let_def)
qed

lemma duration_no_match:
  assumes "iso8601_duration_to_minutes maxd v \<noteq> Inr None"
  shows "\<exists>d g1 g2. v = JStr d \<and> match_duration (py_strip d) = Some (g1, g2)
           \<and> group_ok g1 \<and> group_ok g2 \<and> py_strip d = duration_form g1 g2"
proof -
  from assms obtain d where v: "v = JStr d"
    by (cases v) (simp_all add: iso8601_duration_to_minutes_def)
  from assms v obtain g1 g2 where m: "match_duration (py_strip d) = Some (g1, g2)"
    by (auto simp: iso8601_duration_to_minutes_def split: if_splits option.splits)
  have "py_strip d = [] \<or> \<not> is_space (last (py_strip d))"
    using py_strip_last by blast
  from match_duration_sound[OF m this] v m show ?thesis by blast
qed

lemma minutes_of_form:
  assumes "group_ok hs" "group_ok ms" "group_within maxd hs" "group_within maxd ms"
    "list_all is_space a" "list_all is_space b"
  shows "iso8601_duration_to_minutes maxd (JStr (a @ duration_form hs ms @ b)) =
         Inr (if 0 < form_minutes hs ms then Some (form_minutes hs ms) else None)"
proof -
  from duration_form_ends[OF assms(1,2)] assms(5,6)
  have "py_strip (a @ duration_form hs ms @ b) = duration_form hs ms"
    by (intro py_strip_pad) simp_all
  with match_duration_form[OF assms(1,2)]
  have "match_duration (py_strip (a @ duration_form hs ms @ b)) = Some (hs, ms)" by simp
  from duration_of_match[OF this] show ?thesis
    by (simp add: group_or_0_value[OF assms(1,3)] group_or_0_value[OF assms(2,4)]
          try_bind_def form_minutes_def)
qed

lemma minutes_only_of_form:
  assumes "iso8601_duration_to_minutes maxd v = Inr (Some n)"
  shows "\<exists>d hs ms. v = JStr d \<and> group_ok hs \<and> group_ok ms \<and>
           py_strip d = duration_form hs ms \<and> n = form_minutes hs ms \<and> 0 < n"
proof -
  from assms have "iso8601_duration_to_minutes maxd v \<noteq> Inr None" by simp
  from duration_no_match[OF this] obtain d g1 g2 where v: "v = JStr d"
    and m: "match_duration (py_strip d) = Some (g1, g2)"
    and ok: "group_ok g1" "group_ok g2" and f: "py_strip d = duration_form g1 g2" by blast
  from group_or_0_cases[OF ok(1), of maxd] group_or_0_cases[OF ok(2), of maxd]
  have "n = form_minutes g1 g2 \<and> 0 < n"
    using assms unfolding v duration_of_match[OF m]
    by (auto simp: try_bind_def form_minutes_def split: if_splits)
  with v ok f show ?thesis by blast
qed

lemma raises_only_over_limit:
  assumes "iso8601_duration_to_minutes maxd v = Inl e"
  shows "\<exists>d hs ms. v = JStr d \<and> group_ok hs \<and> group_ok ms \<and>
           py_strip d = duration_form hs ms \<and> \<not> (group_within maxd hs \<and> group_within maxd ms)"
proof -
  from assms have "iso8601_duration_to_minutes maxd v \<noteq> Inr None" by simp
  from duration_no_match[OF this] obtain d g1 g2 where v: "v = JStr d"
    and m: "match_duration (py_strip d) = Some (g1, g2)"
    and ok: "group_ok g1" "group_ok g2" and f: "py_strip d = duration_form g1 g2" by blast
  from group_or_0_cases[OF ok(1), of maxd] group_or_0_cases[OF ok(2), of maxd]
  have "\<not> (group_within maxd g1 \<and> group_within maxd g2)"
    using assms unfolding v duration_of_match[OF m]
    by (auto simp: try_bind_def split: if_splits)
  with v ok f show ?thesis by blast
qed

lemma duration_form_starts: "take 2 (duration_form hs ms) = ''PT''"
  by (simp add: duration_form_def)

text \<open>
  C3, as the claim states it, fails: the parser strips surrounding whitespace before it
  matches, so a string that does not begin with \<open>PT\<close> is given a duration (here under
  the default limit of 4300 digits).
\<close>

theorem duration_exact_form_counterexample:
  "iso8601_duration_to_minutes 4300 (JStr '' PT2H'') = Inr (Some 120)
   \<and> take 2 '' PT2H'' \<noteq> ''PT''"
  by (simp add: iso8601_duration_to_minutes_def match_duration_def opt_group_def py_strip_def
        is_space_def is_digit_def group_or_0_def py_int_str_def digits_to_int_def try_bind_def)

text \<open>
  C3, amended: the duration parser returns hours * 60 + minutes for every string that,
  between leading and trailing whitespace, has the exact form \<open>PT\<close>, an optional
  \<open><digits>H\<close>, an optional \<open><digits>M\<close>, each group of digits within the limit of the
  interpreter on the length of a converted integer, when that total is positive, and
  absent when the total is zero; every input with a result is a string which, stripped
  of surrounding whitespace, has that form with a positive total; and the parser raises
  only on a string which, stripped, has that form with a group of digits over the limit.
  So every other input (a string of another form, an empty string, None, a value that is
  not a string) gives absent.
\<close>

theorem duration_parser_stripped_form:
  "(group_ok hs \<longrightarrow> group_ok ms \<longrightarrow> group_within maxd hs \<longrightarrow> group_within maxd ms \<longrightarrow>
    list_all is_space a \<longrightarrow> list_all is_space b \<longrightarrow>
      iso8601_duration_to_minutes maxd (JStr (a @ duration_form hs ms @ b)) =
        Inr (if 0 < form_minutes hs ms then Some (form_minutes hs ms) else None))
   \<and> (iso8601_duration_to_minutes maxd v = Inr (Some n) \<longrightarrow>
        (\<exists>d hs' ms'. v = JStr d \<and> group_ok hs' \<and> group_ok ms' \<and>
           py_strip d = duration_form hs' ms' \<and> n = form_minutes hs' ms' \<and> 0 < n))
   \<and> (iso8601_duration_to_minutes maxd v = Inl e \<longrightarrow>
        (\<exists>d hs' ms'. v = JStr d \<and> group_ok hs' \<and> group_ok ms' \<and>
           py_strip d = duration_form hs' ms'
           \<and> \<not> (group_within maxd hs' \<and> group_within maxd ms')))"
proof (intro conjI impI)
  assume "group_ok hs" "group_ok ms" "group_within maxd hs" "group_within maxd ms"
    "list_all is_space a" "list_all is_space b"
  then show "iso8601_duration_to_minutes maxd (JStr (a @ duration_form hs ms @ b)) =
        Inr (if 0 < form_minutes hs ms then Some (form_minutes hs ms) else None)"
    by (rule minutes_of_form)
next
  assume "iso8601_duration_to_minutes maxd v = Inr (Some n)"
  then show "\<exists>d hs' ms'. v = JStr d \<and> group_ok hs' \<and> group_ok ms' \<and>
           py_strip d = duration_form hs' ms' \<and> n = form_minutes hs' ms' \<and> 0 < n"
    by (rule minutes_only_of_form)
next
  assume "iso8601_duration_to_minutes maxd v = Inl e"
  then show "\<exists>d hs' ms'. v = JStr d \<and> group_ok hs' \<and> group_ok ms' \<and>
           py_strip d = duration_form hs' ms'
           \<and> \<not> (group_within maxd hs' \<and> group_within maxd ms')"
    by (rule raises_only_over_limit)
qed

theorem duration_parser_stripped_form_witness:
  "iso8601_duration_to_minutes 4300 (JStr ''PT1H30M'') = Inr (Some 90)
   \<and> iso8601_duration_to_minutes 4300 (JStr ''PT45M'') = Inr (Some 45)
   \<and> iso8601_duration_to_minutes 4300 (JStr ''PT2H'') = Inr (Some 120)
   \<and> iso8601_duration_to_minutes 4300 (JStr ''PT0H0M'') = Inr None
   \<and> iso8601_duration_to_minutes 4300 (JStr ''garbage'') = Inr None
   \<and> iso8601_duration_to_minutes 4300 (JStr []) = Inr None
   \<and> iso8601_duration_to_minutes 4300 JNull = Inr None"
proof -
  have ok: "group_ok (Some ''1'')" "group_ok (Some ''30'')" "group_ok (Some ''45'')"
    "group_ok (Some ''2'')" "group_ok (Some ''0'')" "group_ok None"
    by (simp_all add: group_ok_def is_digit_def)
  have wi: "group_within 4300 (Some ''1'')" "group_within 4300 (Some ''30'')"
    "group_within 4300 (Some ''45'')" "group_within 4300 (Some ''2'')"
    "group_within 4300 (Some ''0'')" "group_within 4300 None"
    by (simp_all add: group_within_def)
  have sp: "list_all is_space []" by simp
  have v: "form_minutes (Some ''1'') (Some ''30'') = 90" "form_minutes None (Some ''45'') = 45"
    "form_minutes (Some ''2'') None = 120" "form_minutes (Some ''0'') (Some ''0'') = 0"
    by (simp_all add: form_minutes_def group_value_def digits_to_int_def)
  have 1: "iso8601_duration_to_minutes 4300 (JStr ''PT1H30M'') = Inr (Some 90)"
    using duration_parser_stripped_form[of "Some ''1''" "Some ''30''" 4300 "[]" "[]"] ok wi sp v
    by (simp add: duration_form_def group_text_def)
  have 2: "iso8601_duration_to_minutes 4300 (JStr ''PT45M'') = Inr (Some 45)"
    using duration_parser_stripped_form[of None "Some ''45''" 4300 "[]" "[]"] ok wi sp v
    by (simp add: duration_form_def group_text_def)
  have 3: "iso8601_duration_to_minutes 4300 (JStr ''PT2H'') = Inr (Some 120)"
    using duration_parser_stripped_form[of "Some ''2''" None 4300 "[]" "[]"] ok wi sp v
    by (simp add: duration_form_def group_text_def)
  have 4: "iso8601_duration_to_minutes 4300 (JStr ''PT0H0M'') = Inr None"
    using duration_parser_stripped_form[of "Some ''0''" "Some ''0''" 4300 "[]" "[]"] ok wi sp v
    by (simp add: duration_form_def group_text_def)
  have none: "iso8601_duration_to_minutes 4300 w = Inr None"
    if nf: "\<And>d hs' ms'. w = JStr d \<Longrightarrow> py_strip d \<noteq> duration_form hs' ms'" for w
  proof (cases "iso8601_duration_to_minutes 4300 w")
    case (Inl e)
    with duration_parser_stripped_form[of None None 4300 "[]" "[]" w 0 e] nf
    show ?thesis by blast
  next
    case (Inr r)
    show ?thesis
    proof (cases r)
      case None
      with Inr show ?thesis by simp
    next
      case (Some n)
      with Inr duration_parser_stripped_form[of None None 4300 "[]" "[]" w n ValueError] nf
      show ?thesis by blast
    qed
  qed
  have 5: "iso8601_duration_to_minutes 4300 (JStr ''garbage'') = Inr None"
  proof (rule none)
    fix d hs' ms' assume "JStr ''garbage'' = JStr d"
    then have "take 2 (py_strip d) \<noteq> ''PT''" by (auto simp: py_strip_def is_space_def)
    then show "py_strip d \<noteq> duration_form hs' ms'" using duration_form_starts by metis
  qed
  have 6: "iso8601_duration_to_minutes 4300 (JStr []) = Inr None"
  proof (rule none)
    fix d hs' ms' assume "JStr [] = JStr d"
    then show "py_strip d \<noteq> duration_form hs' ms'"
      by (auto simp: py_strip_def duration_form_def)
  qed
  have 7: "iso8601_duration_to_minutes 4300 JNull = Inr None"
    by (rule none) simp
  from 1 2 3 4 5 6 7 show ?thesis by simp
qed

lemma duration_over_limit:
  assumes "ds \<noteq> []" "list_all is_digit ds" "0 < maxd" "maxd < length ds"
  shows "iso8601_duration_to_minutes maxd (JStr (''PT'' @ ds @ ''H'')) = Inl ValueError"
proof -
  have ok: "group_ok (Some ds)" "group_ok None" using assms(1,2) by (simp_all add: group_ok_def)
  have f: "''PT'' @ ds @ ''H'' = duration_form (Some ds) None"
    by (simp add: duration_form_def group_text_def)
  from duration_form_ends[OF ok]
  have "py_strip ([] @ duration_form (Some ds) None @ []) = duration_form (Some ds) None"
    by (intro py_strip_pad) simp_all
  with match_duration_form[OF ok]
  have "match_duration (py_strip (''PT'' @ ds @ ''H'')) = Some (Some ds, None)"
    unfolding f by simp
  from duration_of_match[OF this] assms show ?thesis
    by (simp add: group_or_0_def py_int_str_def try_bind_def)
qed

section \<open>Properties of title cleaning\<close>

lemma ci_eq_not_space:
  assumes "ci_eq p c" "\<not> is_space p" shows "\<not> is_space c"
proof
  assume sp: "is_space c"
  then have "py_lower c = c" by (auto simp: is_space_def py_lower_def Let_def)
  with assms(1) have eq: "py_lower p = c" by (simp add: ci_eq_def)
  show False
  proof (cases "py_lower p = p")
    case True with eq sp assms(2) show False by simp
  next
    case False
    then have up: "(65 \<le> (of_char p :: nat) \<and> (of_char p :: nat) \<le> 90) \<or> (192 \<le> (of_char p :: nat) \<and> (of_char p :: nat) \<le> 222)"
      and lp: "py_lower p = char_of ((of_char p :: nat) + 32)"
      by (auto simp: py_lower_def Let_def split: if_splits)
    from up have "(of_char (char_of ((of_char p :: nat) + 32)) :: nat) = of_char p + 32"
      by auto
    with up lp have "\<not> is_space (py_lower p)" by (auto simp: is_space_def Let_def)
    with eq sp show False by simp
  qed
qed

lemma list_all2_ci_no_space:
  "list_all2 ci_eq w w' \<Longrightarrow> list_all (\<lambda>c. \<not> is_space c) w \<Longrightarrow> list_all (\<lambda>c. \<not> is_space c) w'"
  by (induction w w' rule: list_all2_induct) (auto dest: ci_eq_not_space)

lemma sub_trailing_unfold:
  "sub_trailing w s =
     (if hit w s
      then rev (dropWhile is_space (tl (dropWhile is_space
             (drop (length w) (dropWhile is_space (rev s))))))
      else s)"
proof -
  define r1 where "r1 = dropWhile is_space (rev s)"
  define r3 where "r3 = dropWhile is_space (drop (length w) r1)"
  define c1 where "c1 \<longleftrightarrow> length w \<le> length r1 \<and> list_all2 ci_eq (rev w) (take (length w) r1)"
  have st: "sub_trailing w s =
      (if c1 then (case r3 of [] \<Rightarrow> s
                   | c # r4 \<Rightarrow> if c = CHR ''-'' then rev (dropWhile is_space r4) else s)
       else s)"
    unfolding sub_trailing_def Let_def r1_def r3_def c1_def ..
  have h: "hit w s \<longleftrightarrow> c1 \<and> (\<exists>r4. r3 = CHR ''-'' # r4)"
    unfolding hit_def r1_def r3_def c1_def by blast
  have "sub_trailing w s = (if hit w s then rev (dropWhile is_space (tl r3)) else s)"
    unfolding st h by (cases r3) auto
  then show ?thesis unfolding r3_def r1_def .
qed

lemma sub_trailing_miss: "\<not> hit w s \<Longrightarrow> sub_trailing w s = s"
  by (subst sub_trailing_unfold) simp

lemma dropWhile_keep: "xs = [] \<or> \<not> P (hd xs) \<Longrightarrow> dropWhile P xs = xs"
  by (cases xs) auto

lemma dropWhile_Cons_keep: "\<not> P x \<Longrightarrow> dropWhile P (x # xs) = x # xs"
  by simp

lemma dropWhile_rev_keep:
  assumes "t = [] \<or> \<not> P (last t)" shows "dropWhile P (rev t) = rev t"
proof (cases t rule: rev_cases)
  case Nil then show ?thesis by simp
next
  case (snoc ys y)
  with assms have "\<not> P y" by simp
  with snoc show ?thesis by simp
qed

lemma decorated_hit:
  assumes d: "decorated w s t" and w: "no_space_word w"
  shows "hit w s \<and> sub_trailing w s = t"
proof -
  from d obtain a b c w' where s: "s = t @ a @ ''-'' @ b @ w' @ c"
    and sp: "list_all is_space a" "list_all is_space b" "list_all is_space c"
    and ci: "list_all2 ci_eq w w'" and t: "t = [] \<or> \<not> is_space (last t)"
    unfolding decorated_def by blast
  from ci have len: "length w' = length w" by (simp add: list_all2_lengthD)
  from w have wne: "w \<noteq> []" and wns: "list_all (\<lambda>c. \<not> is_space c) w"
    by (simp_all add: no_space_word_def)
  from list_all2_ci_no_space[OF ci wns] have w'ns: "list_all (\<lambda>c. \<not> is_space c) w'" .
  from wne len have w'ne: "w' \<noteq> []" by auto
  define rest where "rest = rev b @ CHR ''-'' # rev a @ rev t"
  have rs: "rev s = rev c @ rev w' @ rest" by (simp add: s rest_def)
  have w'keep: "dropWhile is_space (rev w' @ rest) = rev w' @ rest"
  proof (cases w' rule: rev_cases)
    case Nil with w'ne show ?thesis by simp
  next
    case (snoc ys y)
    with w'ns have "\<not> is_space y" by simp
    with snoc show ?thesis by simp
  qed
  have "list_all is_space (rev c)" using sp(3) by simp
  then have "dropWhile is_space (rev c @ rev w' @ rest) = dropWhile is_space (rev w' @ rest)"
    by (rule dropWhile_all)
  with w'keep rs have r1: "dropWhile is_space (rev s) = rev w' @ rest" by simp
  have tk: "take (length w) (rev w' @ rest) = rev w'" using len by simp
  have dr: "drop (length w) (rev w' @ rest) = rest" using len by simp
  have "list_all is_space (rev b)" using sp(2) by simp
  then have "dropWhile is_space (rev b @ CHR ''-'' # rev a @ rev t)
      = dropWhile is_space (CHR ''-'' # rev a @ rev t)"
    by (rule dropWhile_all)
  moreover have "\<not> is_space CHR ''-''" by (simp add: is_space_def)
  ultimately have d2: "dropWhile is_space rest = CHR ''-'' # rev a @ rev t"
    by (simp add: rest_def)
  have "list_all is_space (rev a)" using sp(1) by simp
  then have "dropWhile is_space (rev a @ rev t) = dropWhile is_space (rev t)"
    by (rule dropWhile_all)
  with dropWhile_rev_keep[of t is_space, OF t] have d3: "dropWhile is_space (rev a @ rev t) = rev t" by simp
  have ci': "list_all2 ci_eq (rev w) (rev w')" using ci by simp
  have lenle: "length w \<le> length (rev w' @ rest)" using len by simp
  have h: "hit w s"
    unfolding hit_def r1 tk dr d2 using lenle ci' by blast
  have "sub_trailing w s = rev (dropWhile is_space (tl (dropWhile is_space
             (drop (length w) (dropWhile is_space (rev s))))))"
    using h by (subst sub_trailing_unfold) simp
  also have "\<dots> = t" unfolding r1 dr d2 using d3 by simp
  finally show ?thesis using h by simp
qed

lemma hit_decorated:
  assumes h: "hit w s"
  shows "decorated w s (sub_trailing w s)"
proof -
  define r1 where "r1 = dropWhile is_space (rev s)"
  define r2 where "r2 = drop (length w) r1"
  from h obtain r4 where len: "length w \<le> length r1"
    and ci: "list_all2 ci_eq (rev w) (take (length w) r1)"
    and r3: "dropWhile is_space r2 = CHR ''-'' # r4"
    unfolding hit_def r1_def r2_def by blast
  define c where "c = rev (takeWhile is_space (rev s))"
  define w' where "w' = rev (take (length w) r1)"
  define b where "b = rev (takeWhile is_space r2)"
  define a where "a = rev (takeWhile is_space r4)"
  define t where "t = rev (dropWhile is_space r4)"
  have "sub_trailing w s = rev (dropWhile is_space (tl (dropWhile is_space r2)))"
    unfolding r2_def r1_def using h by (subst sub_trailing_unfold) simp
  then have res: "sub_trailing w s = t" unfolding r3 t_def by simp
  have e1: "rev s = rev c @ r1" unfolding c_def r1_def by simp
  have e2: "r1 = rev w' @ r2" unfolding w'_def r2_def by simp
  have "r2 = takeWhile is_space r2 @ dropWhile is_space r2" by simp
  then have e3: "r2 = rev b @ CHR ''-'' # r4" unfolding r3 b_def by simp
  have e4: "r4 = rev a @ rev t" unfolding a_def t_def by simp
  have "rev s = rev c @ rev w' @ rev b @ CHR ''-'' # rev a @ rev t"
    using e1 e2 e3 e4 by metis
  then have "rev (rev s) = rev (rev c @ rev w' @ rev b @ CHR ''-'' # rev a @ rev t)"
    by (rule arg_cong)
  then have s: "s = t @ a @ ''-'' @ b @ w' @ c" by simp
  have spc: "list_all is_space c" "list_all is_space b" "list_all is_space a"
    unfolding c_def b_def a_def by (auto simp: list_all_iff dest: set_takeWhileD)
  have ci': "list_all2 ci_eq w w'" unfolding w'_def using ci by (simp add: list_all2_rev1)
  have t: "t = [] \<or> \<not> is_space (last t)"
  proof (cases "dropWhile is_space r4")
    case Nil then show ?thesis by (simp add: t_def)
  next
    case (Cons x xs)
    then have "\<not> is_space x" by (metis hd_dropWhile list.sel(1) list.distinct(1))
    with Cons show ?thesis by (simp add: t_def)
  qed
  show ?thesis unfolding res decorated_def
    using s spc ci' t by blast
qed

lemma sub_trailing_strips:
  assumes "no_space_word w" shows "strips w s (sub_trailing w s)"
proof (cases "hit w s")
  case True
  then show ?thesis by (simp add: strips_def hit_decorated)
next
  case False
  then have "sub_trailing w s = s" by (rule sub_trailing_miss)
  moreover from False have "\<forall>t'. \<not> decorated w s t'"
    using decorated_hit[OF _ assms] by blast
  ultimately show ?thesis by (simp add: strips_def)
qed

lemma strips_unique:
  assumes w: "no_space_word w" and st: "strips w s t" shows "t = sub_trailing w s"
proof (cases "decorated w s t")
  case True
  from decorated_hit[OF True w] show ?thesis by simp
next
  case False
  with st have ts: "t = s" and no: "\<forall>t'. \<not> decorated w s t'" by (auto simp: strips_def)
  have "\<not> hit w s"
  proof
    assume "hit w s"
    then have "decorated w s (sub_trailing w s)" by (rule hit_decorated)
    with no show False by blast
  qed
  then have "sub_trailing w s = s" by (rule sub_trailing_miss)
  with ts show ?thesis by simp
qed

lemma year_at_results:
  assumes "year_at s d r"
  shows "search_year s = Some d \<and> sub_year s = rev (dropWhile is_space r)"
proof -
  from assms obtain d1 d2 d3 d4 where d: "d = [d1, d2, d3, d4]" and dg: "list_all is_digit d"
    and r0: "dropWhile is_space (rev s) = CHR '')'' # d4 # d3 # d2 # d1 # CHR ''('' # r"
    unfolding year_at_def by blast
  from dg d have dg': "is_digit d1 \<and> is_digit d2 \<and> is_digit d3 \<and> is_digit d4" by simp
  show ?thesis unfolding search_year_def sub_year_def r0 d using dg' by simp
qed

lemma no_year_at_results:
  assumes "\<forall>d r. \<not> year_at s d r"
  shows "search_year s = None \<and> sub_year s = s"
proof -
  define r0 where "r0 = dropWhile is_space (rev s)"
  have no: "\<not> (\<exists>d1 d2 d3 d4 r. list_all is_digit [d1, d2, d3, d4]
        \<and> r0 = CHR '')'' # d4 # d3 # d2 # d1 # CHR ''('' # r)"
    using assms unfolding year_at_def r0_def by blast
  have "(case r0 of
        c6 # d4 # d3 # d2 # d1 # c1 # r \<Rightarrow>
          if c6 = CHR '')'' \<and> list_all is_digit [d1, d2, d3, d4] \<and> c1 = CHR ''(''
          then Some [d1, d2, d3, d4] else None
      | _ \<Rightarrow> None) = None"
    using no by (auto split: list.splits)
  moreover have "(case r0 of
        c6 # d4 # d3 # d2 # d1 # c1 # r \<Rightarrow>
          if c6 = CHR '')'' \<and> list_all is_digit [d1, d2, d3, d4] \<and> c1 = CHR ''(''
          then rev (dropWhile is_space r) else s
      | _ \<Rightarrow> s) = s"
    using no by (auto split: list.splits)
  ultimately show ?thesis unfolding search_year_def sub_year_def r0_def by simp
qed

lemma year_ended_at:
  assumes "year_ended s t d"
  shows "\<exists>r. year_at s d r \<and> rev (dropWhile is_space r) = t"
proof -
  from assms obtain a c where s: "s = t @ a @ ''('' @ d @ '')'' @ c"
    and sp: "list_all is_space a" "list_all is_space c"
    and d: "length d = 4" "list_all is_digit d" and t: "t = [] \<or> \<not> is_space (last t)"
    unfolding year_ended_def by blast
  from d(1) obtain d1 d2 d3 d4 where dd: "d = [d1, d2, d3, d4]"
    by (auto simp: length_Suc_conv numeral_eq_Suc)
  define r where "r = rev a @ rev t"
  have "rev s = rev c @ CHR '')'' # d4 # d3 # d2 # d1 # CHR ''('' # r"
    by (simp add: s dd r_def)
  moreover have "list_all is_space (rev c)" using sp(2) by simp
  ultimately have "dropWhile is_space (rev s)
      = dropWhile is_space (CHR '')'' # d4 # d3 # d2 # d1 # CHR ''('' # r)"
    by (simp add: dropWhile_all)
  moreover have "\<not> is_space CHR '')''" by (simp add: is_space_def)
  ultimately have r0: "dropWhile is_space (rev s) = CHR '')'' # d4 # d3 # d2 # d1 # CHR ''('' # r"
    by simp
  have ya: "year_at s d r" unfolding year_at_def using dd d(2) r0 by blast
  have "list_all is_space (rev a)" using sp(1) by simp
  then have "dropWhile is_space r = dropWhile is_space (rev t)"
    unfolding r_def by (rule dropWhile_all)
  with dropWhile_rev_keep[of t is_space, OF t] have "rev (dropWhile is_space r) = t" by simp
  with ya show ?thesis by blast
qed

lemma year_at_ended:
  assumes "year_at s d r"
  shows "year_ended s (rev (dropWhile is_space r)) d"
proof -
  from assms obtain d1 d2 d3 d4 where d: "d = [d1, d2, d3, d4]" and dg: "list_all is_digit d"
    and r0: "dropWhile is_space (rev s) = CHR '')'' # d4 # d3 # d2 # d1 # CHR ''('' # r"
    unfolding year_at_def by blast
  define c where "c = rev (takeWhile is_space (rev s))"
  define a where "a = rev (takeWhile is_space r)"
  define t where "t = rev (dropWhile is_space r)"
  have "rev s = takeWhile is_space (rev s) @ dropWhile is_space (rev s)" by simp
  then have e1: "rev s = rev c @ CHR '')'' # d4 # d3 # d2 # d1 # CHR ''('' # r"
    unfolding r0 c_def by simp
  have e2: "r = rev a @ rev t" unfolding a_def t_def by simp
  have "rev s = rev c @ CHR '')'' # d4 # d3 # d2 # d1 # CHR ''('' # rev a @ rev t"
    using e1 e2 by metis
  then have "rev (rev s) = rev (rev c @ CHR '')'' # d4 # d3 # d2 # d1 # CHR ''('' # rev a @ rev t)"
    by (rule arg_cong)
  then have s: "s = t @ a @ ''('' @ d @ '')'' @ c" by (simp add: d)
  have spc: "list_all is_space c" "list_all is_space a"
    unfolding c_def a_def by (auto simp: list_all_iff dest: set_takeWhileD)
  have t: "t = [] \<or> \<not> is_space (last t)"
  proof (cases "dropWhile is_space r")
    case Nil then show ?thesis by (simp add: t_def)
  next
    case (Cons x xs)
    then have "\<not> is_space x" by (metis hd_dropWhile list.sel(1) list.distinct(1))
    with Cons show ?thesis by (simp add: t_def)
  qed
  have "length d = 4" by (simp add: d)
  with s spc dg t show ?thesis unfolding year_ended_def t_def[symmetric] by blast
qed

lemma no_space_words:
  "no_space_word word_SensCritique" "no_space_word word_Film" "no_space_word word_Serie"
  by (simp_all add: no_space_word_def word_SensCritique_def word_Film_def word_Serie_def
        is_space_def)

lemma year_stage:
  "(\<exists>t d. year_ended s t d \<and> search_year s = Some d \<and> sub_year s = t)
   \<or> ((\<forall>t d. \<not> year_ended s t d) \<and> search_year s = None)"
proof (cases "\<exists>d r. year_at s d r")
  case True
  then obtain d r where ya: "year_at s d r" by blast
  from year_at_results[OF ya] year_at_ended[OF ya] show ?thesis by blast
next
  case False
  then have "search_year s = None" using no_year_at_results by blast
  moreover have "\<forall>t d. \<not> year_ended s t d"
  proof (intro allI notI)
    fix t d assume "year_ended s t d"
    from year_ended_at[OF this] False show False by blast
  qed
  ultimately show ?thesis by blast
qed

lemma clean_title_unfold:
  assumes "text \<noteq> []"
  shows "clean_title_and_year (Some text) =
    (let s3 = sub_trailing word_Serie (sub_trailing word_Film
                (sub_trailing word_SensCritique (py_strip (join_sp (py_split text)))))
     in case search_year s3 of
          None \<Rightarrow> (Some s3, None)
        | Some g \<Rightarrow> (Some (py_strip (sub_year s3)), Some (digits_to_int g)))"
  using assms by (simp add: clean_title_and_year_def Let_def)

lemma clean_title_stages:
  assumes "text \<noteq> []"
  shows "\<exists>s1 s2 s3.
        strips word_SensCritique (py_strip (join_sp (py_split text))) s1
      \<and> strips word_Film s1 s2
      \<and> strips word_Serie s2 s3
      \<and> ((\<exists>t d. year_ended s3 t d \<and>
              clean_title_and_year (Some text) = (Some (py_strip t), Some (digits_to_int d)))
         \<or> ((\<forall>t d. \<not> year_ended s3 t d) \<and>
              clean_title_and_year (Some text) = (Some s3, None)))"
proof -
  define s0 where "s0 = py_strip (join_sp (py_split text))"
  define s1 where "s1 = sub_trailing word_SensCritique s0"
  define s2 where "s2 = sub_trailing word_Film s1"
  define s3 where "s3 = sub_trailing word_Serie s2"
  have st: "strips word_SensCritique s0 s1" "strips word_Film s1 s2" "strips word_Serie s2 s3"
    unfolding s1_def s2_def s3_def by (intro sub_trailing_strips no_space_words)+
  have cl: "clean_title_and_year (Some text) =
      (case search_year s3 of
          None \<Rightarrow> (Some s3, None)
        | Some g \<Rightarrow> (Some (py_strip (sub_year s3)), Some (digits_to_int g)))"
    unfolding clean_title_unfold[OF assms] s3_def s2_def s1_def s0_def Let_def ..
  from year_stage[of s3]
  have "(\<exists>t d. year_ended s3 t d \<and>
              clean_title_and_year (Some text) = (Some (py_strip t), Some (digits_to_int d)))
         \<or> ((\<forall>t d. \<not> year_ended s3 t d) \<and>
              clean_title_and_year (Some text) = (Some s3, None))"
  proof
    assume "\<exists>t d. year_ended s3 t d \<and> search_year s3 = Some d \<and> sub_year s3 = t"
    then obtain t d where "year_ended s3 t d" "search_year s3 = Some d" "sub_year s3 = t"
      by blast
    then show ?thesis unfolding cl by auto
  next
    assume "(\<forall>t d. \<not> year_ended s3 t d) \<and> search_year s3 = None"
    then show ?thesis unfolding cl by simp
  qed
  with st show ?thesis unfolding s0_def by blast
qed

lemmas title_eval_defs =
  clean_title_and_year_def py_split_def py_strip_def is_space_def sub_trailing_def ci_eq_def
  py_lower_def word_SensCritique_def word_Film_def word_Serie_def search_year_def sub_year_def
  is_digit_def digits_to_int_def

lemma clean_title_Inception:
  "clean_title_and_year (Some ''Inception (2010) - SensCritique'') = (Some ''Inception'', Some 2010)"
  by (simp add: title_eval_defs)

lemma clean_title_Amelie:
  "clean_title_and_year (Some ([CHR ''A'', CHR ''m'', CHR 0xE9] @ ''lie - Film''))
     = (Some ([CHR ''A'', CHR ''m'', CHR 0xE9] @ ''lie''), None)"
  by (simp add: title_eval_defs)

lemma clean_title_Blade_Runner:
  "clean_title_and_year (Some ''  Blade   Runner  '') = (Some ''Blade Runner'', None)"
  by (simp add: title_eval_defs)

lemma clean_title_Serie:
  "clean_title_and_year (Some (''Lost - '' @ [CHR ''S'', CHR 0xE9] @ ''rie'')) = (Some ''Lost'', None)"
  by (simp add: title_eval_defs)

text \<open>
  C4, as the claim states it, fails: the third pattern of the routine is the French word
  \<open>S\<acute>erie\<close>, so a trailing \<open>- Series\<close> is left in the title.
\<close>

theorem clean_title_Series_counterexample:
  "clean_title_and_year (Some ''Lost - Series'') = (Some ''Lost - Series'', None)"
  by (simp add: title_eval_defs)

text \<open>
  C4, amended: for every non-empty input string, the title-cleaning routine collapses the
  whitespace, strips a trailing \<open>- SensCritique\<close> decoration, then a trailing \<open>- Film\<close>
  decoration, then a trailing \<open>- S\<acute>erie\<close> decoration (each case-insensitively, each at
  most once, in that order; \<open>- Series\<close> is not one of them), then, if the remainder ends
  in a 4-digit parenthesized year, extracts that year and strips the parenthetical, and
  returns the title with the year or None.  In particular
  \<open>Inception (2010) - SensCritique\<close> gives \<open>Inception\<close> and 2010, \<open>Am\<acute>elie - Film\<close> gives
  \<open>Am\<acute>elie\<close> and None, and \<open>  Blade   Runner  \<close> gives \<open>Blade Runner\<close> and None.
\<close>

theorem clean_title_decorations:
  "(text \<noteq> [] \<longrightarrow>
     (\<exists>s1 s2 s3.
        strips word_SensCritique (py_strip (join_sp (py_split text))) s1
      \<and> strips word_Film s1 s2
      \<and> strips word_Serie s2 s3
      \<and> ((\<exists>t d. year_ended s3 t d \<and>
              clean_title_and_year (Some text) = (Some (py_strip t), Some (digits_to_int d)))
         \<or> ((\<forall>t d. \<not> year_ended s3 t d) \<and>
              clean_title_and_year (Some text) = (Some s3, None)))))
   \<and> clean_title_and_year (Some ''Inception (2010) - SensCritique'') = (Some ''Inception'', Some 2010)
   \<and> clean_title_and_year (Some ([CHR ''A'', CHR ''m'', CHR 0xE9] @ ''lie - Film''))
       = (Some ([CHR ''A'', CHR ''m'', CHR 0xE9] @ ''lie''), None)
   \<and> clean_title_and_year (Some ''  Blade   Runner  '') = (Some ''Blade Runner'', None)"
  using clean_title_stages clean_title_Inception clean_title_Amelie clean_title_Blade_Runner
  by blast

theorem clean_title_decorations_witness:
  "''Dune (2021)'' \<noteq> []
   \<and> (\<exists>s1 s2 s3.
        strips word_SensCritique (py_strip (join_sp (py_split ''Dune (2021)''))) s1
      \<and> strips word_Film s1 s2
      \<and> strips word_Serie s2 s3
      \<and> ((\<exists>t d. year_ended s3 t d \<and>
              clean_title_and_year (Some ''Dune (2021)'') = (Some (py_strip t), Some (digits_to_int d)))
         \<or> ((\<forall>t d. \<not> year_ended s3 t d) \<and>
              clean_title_and_year (Some ''Dune (2021)'') = (Some s3, None))))"
  using clean_title_decorations[of "''Dune (2021)''"] by simp

lemma split_aux_spaces: "list_all is_space s \<Longrightarrow> split_aux [] s = []"
  by (induction s) auto

lemma sub_trailing_Nil: "w \<noteq> [] \<Longrightarrow> sub_trailing w [] = []"
  by (simp add: sub_trailing_def)

lemma search_year_Nil: "search_year [] = None"
  by (simp add: search_year_def)

lemma clean_title_spaces:
  assumes "text \<noteq> []" "list_all is_space text"
  shows "clean_title_and_year (Some text) = (Some [], None)"
proof -
  have "py_strip (join_sp (py_split text)) = []"
    using assms(2) by (simp add: py_split_def split_aux_spaces py_strip_def)
  then show ?thesis
    unfolding clean_title_unfold[OF assms(1)] Let_def
    by (simp add: sub_trailing_Nil search_year_Nil word_SensCritique_def word_Film_def word_Serie_def)
qed

lemma clean_title_None_iff:
  "fst (clean_title_and_year t) = None \<longleftrightarrow> t = None \<or> t = Some []"
proof (cases t)
  case None then show ?thesis by (simp add: clean_title_and_year_def)
next
  case (Some tx)
  show ?thesis
  proof (cases "tx = []")
    case True with Some show ?thesis by (simp add: clean_title_and_year_def)
  next
    case False
    from clean_title_stages[OF False] have "fst (clean_title_and_year (Some tx)) \<noteq> None"
      by auto
    with Some False show ?thesis by simp
  qed
qed

lemma clean_title_dash_Film: "clean_title_and_year (Some ''- Film'') = (Some [], None)"
  by (simp add: title_eval_defs)

text \<open>
  C10: for a truthy input whose cleaned form is empty (a non-empty string of whitespace
  only, or a text such as \<open>- Film\<close> that the suffix stripping reduces to nothing), the
  title returned is the empty string, not None; the title is None only for a falsy
  input, None or the empty string.
\<close>

theorem clean_title_empty_not_None:
  "(tx \<noteq> [] \<and> list_all is_space tx \<longrightarrow> clean_title_and_year (Some tx) = (Some [], None))
   \<and> clean_title_and_year (Some ''- Film'') = (Some [], None)
   \<and> (fst (clean_title_and_year t) = None \<longleftrightarrow> t = None \<or> t = Some [])"
proof (intro conjI impI)
  assume "tx \<noteq> [] \<and> list_all is_space tx"
  then show "clean_title_and_year (Some tx) = (Some [], None)"
    using clean_title_spaces by simp
next
  show "clean_title_and_year (Some ''- Film'') = (Some [], None)"
    by (rule clean_title_dash_Film)
next
  show "fst (clean_title_and_year t) = None \<longleftrightarrow> t = None \<or> t = Some []"
    by (rule clean_title_None_iff)
qed

theorem clean_title_empty_not_None_witness:
  "''   '' \<noteq> [] \<and> list_all is_space ''   ''
   \<and> clean_title_and_year (Some ''   '') = (Some [], None)
   \<and> fst (clean_title_and_year (Some ''- Film'')) \<noteq> None"
proof -
  have h: "''   '' \<noteq> [] \<and> list_all is_space ''   ''" by (simp add: is_space_def)
  from clean_title_empty_not_None[of "''   ''" "Some ''- Film''"] h
  have 1: "clean_title_and_year (Some ''   '') = (Some [], None)"
    and 2: "fst (clean_title_and_year (Some ''- Film'')) = None
        \<longleftrightarrow> Some ''- Film'' = (None :: string option) \<or> Some ''- Film'' = Some []"
    by blast+
  from 2 have "fst (clean_title_and_year (Some ''- Film'')) \<noteq> None" by simp
  with h 1 show ?thesis by blast
qed

section \<open>Properties of the crawl controller\<close>

lemma film_request_urls_simps:
  "film_request_urls [] = []"
  "film_request_urls (FilmRequest u # qs) = u # film_request_urls qs"
  "film_request_urls (ListRequest u # qs) = film_request_urls qs"
  "film_request_urls (qs @ qs') = film_request_urls qs @ film_request_urls qs'"
  by (simp_all add: film_request_urls_def)

lemma list_request_urls_simps:
  "list_request_urls [] = []"
  "list_request_urls (FilmRequest u # qs) = list_request_urls qs"
  "list_request_urls (ListRequest u # qs) = u # list_request_urls qs"
  "list_request_urls (qs @ qs') = list_request_urls qs @ list_request_urls qs'"
  by (simp_all add: list_request_urls_def)

lemma schedule_films_frame:
  "schedule_films sp us = (sp', reqs) \<Longrightarrow>
     max_items sp' = max_items sp \<and> max_pages sp' = max_pages sp \<and> shuffle sp' = shuffle sp
     \<and> sample_rate sp' = sample_rate sp \<and> seen_list_pages sp' = seen_list_pages sp
     \<and> pages_crawled sp' = pages_crawled sp \<and> seed_urls sp' = seed_urls sp"
proof (induction us arbitrary: sp sp' reqs)
  case Nil then show ?case by simp
next
  case (Cons u us)
  show ?case
  proof (cases "items_scheduled sp \<ge> max_items sp")
    case True with Cons.prems show ?thesis by simp
  next
    case False
    show ?thesis
    proof (cases "u \<in> seen_film_urls sp")
      case True with False Cons show ?thesis by simp
    next
      case nseen: False
      define sp1 where "sp1 = sp\<lparr>seen_film_urls := insert u (seen_film_urls sp),
                         items_scheduled := items_scheduled sp + 1\<rparr>"
      obtain sp2 rs where r: "schedule_films sp1 us = (sp2, rs)" by (cases "schedule_films sp1 us")
      from Cons.prems False nseen r have "sp' = sp2" by (simp add: sp1_def Let_def)
      with Cons.IH[OF r] show ?thesis by (simp add: sp1_def)
    qed
  qed
qed

lemma schedule_films_counters:
  "schedule_films sp us = (sp', reqs) \<Longrightarrow>
     items_scheduled sp \<le> items_scheduled sp'
     \<and> (items_scheduled sp \<le> max_items sp \<longrightarrow> items_scheduled sp' \<le> max_items sp)"
proof (induction us arbitrary: sp sp' reqs)
  case Nil then show ?case by simp
next
  case (Cons u us)
  show ?case
  proof (cases "items_scheduled sp \<ge> max_items sp")
    case True with Cons.prems show ?thesis by simp
  next
    case False
    show ?thesis
    proof (cases "u \<in> seen_film_urls sp")
      case True with False Cons show ?thesis by simp
    next
      case nseen: False
      define sp1 where "sp1 = sp\<lparr>seen_film_urls := insert u (seen_film_urls sp),
                         items_scheduled := items_scheduled sp + 1\<rparr>"
      obtain sp2 rs where r: "schedule_films sp1 us = (sp2, rs)" by (cases "schedule_films sp1 us")
      from Cons.prems False nseen r have "sp' = sp2" by (simp add: sp1_def Let_def)
      with Cons.IH[OF r] False show ?thesis by (simp add: sp1_def)
    qed
  qed
qed

lemma schedule_films_requests:
  "schedule_films sp us = (sp', reqs) \<Longrightarrow>
     list_request_urls reqs = []
     \<and> seen_film_urls sp' = seen_film_urls sp \<union> set (film_request_urls reqs)
     \<and> set (film_request_urls reqs) \<subseteq> set us
     \<and> set (film_request_urls reqs) \<inter> seen_film_urls sp = {}
     \<and> distinct (film_request_urls reqs)"
proof (induction us arbitrary: sp sp' reqs)
  case Nil then show ?case by (simp add: film_request_urls_simps list_request_urls_simps)
next
  case (Cons u us)
  show ?case
  proof (cases "items_scheduled sp \<ge> max_items sp")
    case True with Cons.prems show ?thesis
      by (simp add: film_request_urls_simps list_request_urls_simps)
  next
    case False
    show ?thesis
    proof (cases "u \<in> seen_film_urls sp")
      case True
      with False Cons.prems have "schedule_films sp us = (sp', reqs)" by simp
      from Cons.IH[OF this] show ?thesis by auto
    next
      case nseen: False
      define sp1 where "sp1 = sp\<lparr>seen_film_urls := insert u (seen_film_urls sp),
                         items_scheduled := items_scheduled sp + 1\<rparr>"
      obtain sp2 rs where r: "schedule_films sp1 us = (sp2, rs)" by (cases "schedule_films sp1 us")
      from Cons.prems False nseen r have e: "sp' = sp2" "reqs = FilmRequest u # rs"
        by (simp_all add: sp1_def Let_def)
      have s1: "seen_film_urls sp1 = insert u (seen_film_urls sp)" by (simp add: sp1_def)
      from Cons.IH[OF r] s1 nseen show ?thesis unfolding e
        by (auto simp: film_request_urls_simps list_request_urls_simps)
    qed
  qed
qed

lemma schedule_films_all:
  "distinct us \<Longrightarrow> set us \<inter> seen_film_urls sp = {} \<Longrightarrow>
   items_scheduled sp + int (length us) \<le> max_items sp \<Longrightarrow>
   snd (schedule_films sp us) = map FilmRequest us"
proof (induction us arbitrary: sp)
  case Nil then show ?case by simp
next
  case (Cons u us)
  define sp1 where "sp1 = sp\<lparr>seen_film_urls := insert u (seen_film_urls sp),
                         items_scheduled := items_scheduled sp + 1\<rparr>"
  from Cons.prems have a: "\<not> items_scheduled sp \<ge> max_items sp" "u \<notin> seen_film_urls sp" by auto
  have "snd (schedule_films sp1 us) = map FilmRequest us"
    using Cons.prems by (intro Cons.IH) (auto simp: sp1_def)
  moreover obtain sp2 rs where "schedule_films sp1 us = (sp2, rs)"
    by (cases "schedule_films sp1 us")
  ultimately show ?case using a by (simp add: sp1_def[symmetric])
qed

lemma dispatch_next_props:
  "film_request_urls (dispatch_next sp us) = []
   \<and> set (list_request_urls (dispatch_next sp us)) \<subseteq> set us - seen_list_pages sp
   \<and> length (list_request_urls (dispatch_next sp us)) \<le> length us
   \<and> (pages_crawled sp \<ge> max_pages sp \<longrightarrow> dispatch_next sp us = [])"
  by (induction us) (auto simp: film_request_urls_simps list_request_urls_simps)

lemma parse_list_page_seen:
  "url r \<in> seen_list_pages sp \<Longrightarrow> parse_list_page nd sp r = (sp, [])"
  by (simp add: parse_list_page_def)

lemma parse_list_page_over:
  "url r \<notin> seen_list_pages sp \<Longrightarrow> pages_crawled sp + 1 > max_pages sp \<Longrightarrow>
   parse_list_page nd sp r = (visit sp r, [])"
  by (simp add: parse_list_page_def visit_def Let_def)

lemma parse_list_page_new:
  assumes "url r \<notin> seen_list_pages sp" "\<not> pages_crawled sp + 1 > max_pages sp"
    and sf: "schedule_films (visit sp r) (film_candidates nd (visit sp r) r) = (sp2, film_reqs)"
  shows "parse_list_page nd sp r =
     (sp2, film_reqs @ (if pages_crawled sp + 1 \<ge> max_pages sp then []
                        else dispatch_next sp2 (take 8 (next_links nd sp2 r))))"
proof -
  from schedule_films_frame[OF sf]
  have f: "pages_crawled sp2 = pages_crawled sp + 1" "max_pages sp2 = max_pages sp"
    by (simp_all add: visit_def)
  have v: "pages_crawled (visit sp r) = pages_crawled sp + 1" "max_pages (visit sp r) = max_pages sp"
    by (simp_all add: visit_def)
  show ?thesis
    using assms(1,2) sf f v unfolding parse_list_page_def visit_def[symmetric] Let_def
    by simp
qed

lemma parse_list_page_step:
  assumes "parse_list_page nd sp r = (sp', reqs)"
  shows "max_items sp' = max_items sp \<and> max_pages sp' = max_pages sp
     \<and> shuffle sp' = shuffle sp \<and> sample_rate sp' = sample_rate sp
     \<and> items_scheduled sp \<le> items_scheduled sp'
     \<and> pages_crawled sp \<le> pages_crawled sp'
     \<and> (items_scheduled sp \<le> max_items sp \<longrightarrow> items_scheduled sp' \<le> max_items sp)
     \<and> seen_list_pages sp' = insert (url r) (seen_list_pages sp)
     \<and> seen_film_urls sp' = seen_film_urls sp \<union> set (film_request_urls reqs)
     \<and> set (film_request_urls reqs) \<inter> seen_film_urls sp = {}
     \<and> distinct (film_request_urls reqs)
     \<and> set (list_request_urls reqs) \<inter> seen_list_pages sp' = {}
     \<and> length (list_request_urls reqs) \<le> 8
     \<and> (max_pages sp \<le> pages_crawled sp' \<longrightarrow> list_request_urls reqs = [])"
proof (cases "url r \<in> seen_list_pages sp")
  case True
  with assms parse_list_page_seen[OF True, of nd] have "sp' = sp" "reqs = []" by simp_all
  with True show ?thesis
    by (auto simp: film_request_urls_simps list_request_urls_simps)
next
  case new: False
  show ?thesis
  proof (cases "pages_crawled sp + 1 > max_pages sp")
    case True
    with assms parse_list_page_over[OF new True, of nd] have "sp' = visit sp r" "reqs = []"
      by simp_all
    then show ?thesis
      by (simp add: visit_def film_request_urls_simps list_request_urls_simps)
  next
    case False
    obtain sp2 film_reqs where
      sf: "schedule_films (visit sp r) (film_candidates nd (visit sp r) r) = (sp2, film_reqs)"
      by (cases "schedule_films (visit sp r) (film_candidates nd (visit sp r) r)")
    define nx where "nx = (if pages_crawled sp + 1 \<ge> max_pages sp then []
                        else dispatch_next sp2 (take 8 (next_links nd sp2 r)))"
    from assms parse_list_page_new[OF new False sf] have e: "sp' = sp2" "reqs = film_reqs @ nx"
      by (simp_all add: nx_def)
    note fr = schedule_films_frame[OF sf] and cn = schedule_films_counters[OF sf]
      and rq = schedule_films_requests[OF sf]
    have nxp: "film_request_urls nx = []"
      "set (list_request_urls nx) \<subseteq> set (take 8 (next_links nd sp2 r)) - seen_list_pages sp2"
      "length (list_request_urls nx) \<le> length (take 8 (next_links nd sp2 r))"
      "max_pages sp \<le> pages_crawled sp + 1 \<longrightarrow> nx = []"
      using dispatch_next_props[of sp2 "take 8 (next_links nd sp2 r)"]
      by (auto simp: nx_def film_request_urls_simps list_request_urls_simps)
    have fu: "film_request_urls reqs = film_request_urls film_reqs"
      and lu: "list_request_urls reqs = list_request_urls nx"
      using rq nxp(1) by (simp_all add: e film_request_urls_simps list_request_urls_simps)
    have v: "seen_film_urls (visit sp r) = seen_film_urls sp"
      "items_scheduled (visit sp r) = items_scheduled sp"
      "max_items (visit sp r) = max_items sp" "max_pages (visit sp r) = max_pages sp"
      "shuffle (visit sp r) = shuffle sp" "sample_rate (visit sp r) = sample_rate sp"
      "seen_list_pages (visit sp r) = insert (url r) (seen_list_pages sp)"
      "pages_crawled (visit sp r) = pages_crawled sp + 1"
      by (simp_all add: visit_def)
    have fr': "max_items sp2 = max_items sp" "max_pages sp2 = max_pages sp"
      "shuffle sp2 = shuffle sp" "sample_rate sp2 = sample_rate sp"
      "seen_list_pages sp2 = insert (url r) (seen_list_pages sp)"
      "pages_crawled sp2 = pages_crawled sp + 1"
      using fr v by simp_all
    have cn': "items_scheduled sp \<le> items_scheduled sp2"
      "items_scheduled sp \<le> max_items sp \<longrightarrow> items_scheduled sp2 \<le> max_items sp"
      using cn v by simp_all
    have rq': "seen_film_urls sp2 = seen_film_urls sp \<union> set (film_request_urls reqs)"
      "set (film_request_urls reqs) \<inter> seen_film_urls sp = {}"
      "distinct (film_request_urls reqs)"
      using rq v unfolding fu by simp_all
    have len8: "length (list_request_urls reqs) \<le> 8"
      using nxp(3) unfolding lu by simp
    have last: "max_pages sp \<le> pages_crawled sp2 \<longrightarrow> list_request_urls reqs = []"
      using nxp(4) unfolding lu fr'(6) by (simp add: list_request_urls_simps)
    have disj: "set (list_request_urls reqs) \<inter> seen_list_pages sp2 = {}"
      using nxp(2) unfolding lu by blast
    have pg: "pages_crawled sp \<le> pages_crawled sp2" unfolding fr'(6) by simp
    show ?thesis
      unfolding e(1)
      by (intro conjI fr'(1-5) cn' rq' len8 last disj pg)
  qed
qed

lemma run_pages_step:
  "run_pages sp evs = (sp', reqs) \<Longrightarrow>
     max_items sp' = max_items sp \<and> max_pages sp' = max_pages sp
     \<and> items_scheduled sp \<le> items_scheduled sp'
     \<and> pages_crawled sp \<le> pages_crawled sp'
     \<and> (items_scheduled sp \<le> max_items sp \<longrightarrow> items_scheduled sp' \<le> max_items sp)
     \<and> seen_list_pages sp' = seen_list_pages sp \<union> set (map (\<lambda>ev. url (snd ev)) evs)
     \<and> seen_film_urls sp' = seen_film_urls sp \<union> set (film_request_urls reqs)
     \<and> set (film_request_urls reqs) \<inter> seen_film_urls sp = {}
     \<and> distinct (film_request_urls reqs)"
proof (induction evs arbitrary: sp sp' reqs)
  case Nil then show ?case by (simp add: film_request_urls_simps)
next
  case (Cons ev evs)
  obtain sp1 q1 where p: "parse_list_page (fst ev) sp (snd ev) = (sp1, q1)"
    by (cases "parse_list_page (fst ev) sp (snd ev)")
  obtain sp2 q2 where r: "run_pages sp1 evs = (sp2, q2)" by (cases "run_pages sp1 evs")
  from Cons.prems p r have e: "sp' = sp2" "reqs = q1 @ q2" by simp_all
  from parse_list_page_step[OF p]
  have s1: "max_items sp1 = max_items sp" and s2: "max_pages sp1 = max_pages sp"
    and s3: "items_scheduled sp \<le> items_scheduled sp1"
    and s4: "pages_crawled sp \<le> pages_crawled sp1"
    and s5: "items_scheduled sp \<le> max_items sp \<longrightarrow> items_scheduled sp1 \<le> max_items sp"
    and s6: "seen_list_pages sp1 = insert (url (snd ev)) (seen_list_pages sp)"
    and s7: "seen_film_urls sp1 = seen_film_urls sp \<union> set (film_request_urls q1)"
    and s8: "set (film_request_urls q1) \<inter> seen_film_urls sp = {}"
    and s9: "distinct (film_request_urls q1)"
    by blast+
  from Cons.IH[OF r]
  have i1: "max_items sp2 = max_items sp1" and i2: "max_pages sp2 = max_pages sp1"
    and i3: "items_scheduled sp1 \<le> items_scheduled sp2"
    and i4: "pages_crawled sp1 \<le> pages_crawled sp2"
    and i5: "items_scheduled sp1 \<le> max_items sp1 \<longrightarrow> items_scheduled sp2 \<le> max_items sp1"
    and i6: "seen_list_pages sp2 = seen_list_pages sp1 \<union> set (map (\<lambda>ev. url (snd ev)) evs)"
    and i7: "seen_film_urls sp2 = seen_film_urls sp1 \<union> set (film_request_urls q2)"
    and i8: "set (film_request_urls q2) \<inter> seen_film_urls sp1 = {}"
    and i9: "distinct (film_request_urls q2)"
    by blast+
  have a: "max_items sp2 = max_items sp" "max_pages sp2 = max_pages sp"
    "items_scheduled sp \<le> items_scheduled sp2" "pages_crawled sp \<le> pages_crawled sp2"
    "items_scheduled sp \<le> max_items sp \<longrightarrow> items_scheduled sp2 \<le> max_items sp"
    using s1 s2 s3 s4 s5 i1 i2 i3 i4 i5 by simp_all
  have b: "seen_list_pages sp2 = seen_list_pages sp \<union> set (map (\<lambda>ev. url (snd ev)) (ev # evs))"
    unfolding i6 s6 by simp
  have fq: "film_request_urls (q1 @ q2) = film_request_urls q1 @ film_request_urls q2"
    by (simp add: film_request_urls_simps)
  have c: "seen_film_urls sp2 = seen_film_urls sp \<union> set (film_request_urls (q1 @ q2))"
    unfolding i7 s7 fq by auto
  have d: "set (film_request_urls (q1 @ q2)) \<inter> seen_film_urls sp = {}"
    using s8 i8 unfolding s7 fq by auto
  have f: "distinct (film_request_urls (q1 @ q2))"
    using s9 i9 i8 unfolding s7 fq by auto
  show ?case unfolding e by (intro conjI a b c d f)
qed

lemma parse_list_page_fst_snd:
  "parse_list_page nd sp r = (fst (parse_list_page nd sp r), snd (parse_list_page nd sp r))"
  by simp

lemma run_pages_fst_snd:
  "run_pages sp evs = (fst (run_pages sp evs), snd (run_pages sp evs))"
  by simp

text \<open>
  C6: processing a listing-page response whose URL is already in \<open>seen_list_pages\<close>
  yields no request and leaves the spider, with both sets and both counters, as it was;
  so processing the same response a second time changes nothing.
\<close>

theorem seen_list_page_noop:
  "(url r \<in> seen_list_pages sp \<longrightarrow> parse_list_page nd sp r = (sp, []))
   \<and> parse_list_page nd' (fst (parse_list_page nd sp r)) r = (fst (parse_list_page nd sp r), [])"
proof (intro conjI impI)
  assume "url r \<in> seen_list_pages sp"
  then show "parse_list_page nd sp r = (sp, [])" by (rule parse_list_page_seen)
next
  from parse_list_page_step[OF parse_list_page_fst_snd]
  have "seen_list_pages (fst (parse_list_page nd sp r)) = insert (url r) (seen_list_pages sp)"
    by blast
  then have "url r \<in> seen_list_pages (fst (parse_list_page nd sp r))" by simp
  then show "parse_list_page nd' (fst (parse_list_page nd sp r)) r = (fst (parse_list_page nd sp r), [])"
    by (rule parse_list_page_seen)
qed

theorem seen_list_page_noop_witness:
  "url top_page \<in> seen_list_pages (fst (parse_list_page keep_order (init_spider [] 250 12 False 1) top_page))
   \<and> parse_list_page keep_order
        (fst (parse_list_page keep_order (init_spider [] 250 12 False 1) top_page)) top_page
      = (fst (parse_list_page keep_order (init_spider [] 250 12 False 1) top_page), [])"
proof -
  have h: "url top_page \<in> seen_list_pages (fst (parse_list_page keep_order (init_spider [] 250 12 False 1) top_page))"
    by code_simp
  from seen_list_page_noop[of top_page "fst (parse_list_page keep_order (init_spider [] 250 12 False 1) top_page)" keep_order] h
  show ?thesis by blast
qed

text \<open>
  C1: each processing step leaves \<open>items_scheduled\<close> and \<open>pages_crawled\<close> equal or
  larger, over one response and over any sequence of responses; \<open>max_items\<close> does not
  change; and \<open>items_scheduled\<close> never exceeds \<open>max_items\<close>: the bound is kept by every
  sequence of responses, and it holds from the start of a run, where the counter is 0,
  for a budget \<open>max_items\<close> that is not negative.
\<close>

theorem counters_bounded_monotone:
  "items_scheduled sp \<le> items_scheduled (fst (parse_list_page nd sp r))
   \<and> pages_crawled sp \<le> pages_crawled (fst (parse_list_page nd sp r))
   \<and> max_items (fst (run_pages sp evs)) = max_items sp
   \<and> items_scheduled sp \<le> items_scheduled (fst (run_pages sp evs))
   \<and> pages_crawled sp \<le> pages_crawled (fst (run_pages sp evs))
   \<and> (items_scheduled sp \<le> max_items sp \<longrightarrow>
        items_scheduled (fst (run_pages sp evs)) \<le> max_items sp)
   \<and> (0 \<le> mi \<longrightarrow>
        items_scheduled (fst (run_pages (init_spider seeds mi mp sh sr) evs)) \<le> mi)"
proof -
  from parse_list_page_step[OF parse_list_page_fst_snd]
  have a: "items_scheduled sp \<le> items_scheduled (fst (parse_list_page nd sp r))"
    "pages_crawled sp \<le> pages_crawled (fst (parse_list_page nd sp r))"
    by blast+
  from run_pages_step[OF run_pages_fst_snd]
  have b: "max_items (fst (run_pages sp evs)) = max_items sp"
    "items_scheduled sp \<le> items_scheduled (fst (run_pages sp evs))"
    "pages_crawled sp \<le> pages_crawled (fst (run_pages sp evs))"
    "items_scheduled sp \<le> max_items sp \<longrightarrow>
        items_scheduled (fst (run_pages sp evs)) \<le> max_items sp"
    by blast+
  have c: "0 \<le> mi \<longrightarrow>
        items_scheduled (fst (run_pages (init_spider seeds mi mp sh sr) evs)) \<le> mi"
  proof
    assume mi: "0 \<le> mi"
    define sp0 where "sp0 = init_spider seeds mi mp sh sr"
    have i: "items_scheduled sp0 = 0" "max_items sp0 = mi" by (simp_all add: sp0_def init_spider_def)
    from run_pages_step[OF run_pages_fst_snd, of sp0 evs]
    have "items_scheduled sp0 \<le> max_items sp0 \<longrightarrow>
        items_scheduled (fst (run_pages sp0 evs)) \<le> max_items sp0" by blast
    with i mi show "items_scheduled (fst (run_pages (init_spider seeds mi mp sh sr) evs)) \<le> mi"
      unfolding sp0_def by simp
  qed
  from a b c show ?thesis by blast
qed

theorem counters_bounded_monotone_witness:
  "(0::int) \<le> 1
   \<and> items_scheduled (fst (run_pages (init_spider [] 1 12 False 1)
        [(keep_order, ten_films_page), (keep_order, top_page)])) = 1
   \<and> items_scheduled (fst (run_pages (init_spider [] 1 12 False 1)
        [(keep_order, ten_films_page), (keep_order, top_page)])) \<le> 1"
proof -
  have e: "items_scheduled (fst (run_pages (init_spider [] 1 12 False 1)
        [(keep_order, ten_films_page), (keep_order, top_page)])) = 1"
    by code_simp
  from counters_bounded_monotone[of "init_spider [] 1 12 False 1" keep_order top_page
      "[(keep_order, ten_films_page), (keep_order, top_page)]" 1 "[]" 12 False 1] e
  show ?thesis by simp
qed

text \<open>
  C2: when \<open>pages_crawled\<close> has reached \<open>max_pages\<close>, before the response is processed
  or once it has been counted, no listing request is yielded from the page; a page
  yields at most 8 listing requests, and none of them is for a URL in
  \<open>seen_list_pages\<close>, which at that moment holds the URL of the page as well.
\<close>

theorem next_page_dispatch_bounded:
  "((max_pages sp \<le> pages_crawled sp
      \<or> max_pages sp \<le> pages_crawled (fst (parse_list_page nd sp r)))
     \<longrightarrow> list_request_urls (snd (parse_list_page nd sp r)) = [])
   \<and> length (list_request_urls (snd (parse_list_page nd sp r))) \<le> 8
   \<and> set (list_request_urls (snd (parse_list_page nd sp r)))
        \<inter> insert (url r) (seen_list_pages sp) = {}"
proof -
  from parse_list_page_step[OF parse_list_page_fst_snd]
  have mono: "pages_crawled sp \<le> pages_crawled (fst (parse_list_page nd sp r))"
    and stop: "max_pages sp \<le> pages_crawled (fst (parse_list_page nd sp r))
        \<longrightarrow> list_request_urls (snd (parse_list_page nd sp r)) = []"
    and len: "length (list_request_urls (snd (parse_list_page nd sp r))) \<le> 8"
    and seen: "seen_list_pages (fst (parse_list_page nd sp r)) = insert (url r) (seen_list_pages sp)"
    and disj: "set (list_request_urls (snd (parse_list_page nd sp r)))
        \<inter> seen_list_pages (fst (parse_list_page nd sp r)) = {}"
    by blast+
  have 1: "(max_pages sp \<le> pages_crawled sp
      \<or> max_pages sp \<le> pages_crawled (fst (parse_list_page nd sp r)))
     \<longrightarrow> list_request_urls (snd (parse_list_page nd sp r)) = []"
    using mono stop by linarith
  from disj have 3: "set (list_request_urls (snd (parse_list_page nd sp r)))
        \<inter> insert (url r) (seen_list_pages sp) = {}" unfolding seen .
  from 1 len 3 show ?thesis by blast
qed

theorem next_page_dispatch_bounded_witness:
  "max_pages (init_spider [] 250 1 False 1)
     \<le> pages_crawled (fst (parse_list_page keep_order (init_spider [] 250 1 False 1) top_page))
   \<and> list_request_urls (snd (parse_list_page keep_order (init_spider [] 250 1 False 1) top_page)) = []
   \<and> list_request_urls (snd (parse_list_page keep_order (init_spider [] 250 12 False 1) top_page))
       = [''https://www.senscritique.com/film/top_gun/12345'']"
proof -
  have h: "max_pages (init_spider [] 250 1 False 1)
     \<le> pages_crawled (fst (parse_list_page keep_order (init_spider [] 250 1 False 1) top_page))"
    by code_simp
  have e: "list_request_urls (snd (parse_list_page keep_order (init_spider [] 250 12 False 1) top_page))
       = [''https://www.senscritique.com/film/top_gun/12345'']"
    by code_simp
  from next_page_dispatch_bounded[of "init_spider [] 250 1 False 1" keep_order top_page] h e
  show ?thesis by blast
qed

text \<open>
  C9, as the claim states it, fails.  The anchor \<open>/film/top_gun/12345\<close> of a listing page
  is a film link and, since it contains \<open>/top\<close> and ends in a number, a next-page link
  too: its URL is scheduled as a film and requested as a listing page, and once that
  page is processed the URL is in both sets.
\<close>

theorem visited_sets_disjoint_counterexample:
  "ListRequest ''https://www.senscritique.com/film/top_gun/12345''
     \<in> set (snd (parse_list_page keep_order (init_spider [] 250 12 False 1) top_page))
   \<and> ''https://www.senscritique.com/film/top_gun/12345''
     \<in> seen_list_pages (fst (run_pages (init_spider [] 250 12 False 1)
           [(keep_order, top_page), (keep_order, top_gun_page)]))
       \<inter> seen_film_urls (fst (run_pages (init_spider [] 250 12 False 1)
           [(keep_order, top_page), (keep_order, top_gun_page)]))"
  by code_simp

text \<open>
  C9, amended: throughout every crawl run \<open>seen_list_pages\<close> is the set of the URLs of
  the listing-page responses processed so far and \<open>seen_film_urls\<close> is the set of the
  film URLs scheduled so far, so the two sets are disjoint exactly when no URL processed
  as a listing page has also been scheduled as a film.
\<close>

theorem visited_sets_characterised:
  "seen_list_pages (fst (run_pages sp evs))
      = seen_list_pages sp \<union> set (map (\<lambda>ev. url (snd ev)) evs)
   \<and> seen_film_urls (fst (run_pages sp evs))
      = seen_film_urls sp \<union> set (film_request_urls (snd (run_pages sp evs)))
   \<and> (seen_list_pages (fst (run_pages (init_spider seeds mi mp sh sr) evs))
        \<inter> seen_film_urls (fst (run_pages (init_spider seeds mi mp sh sr) evs)) = {}
      \<longleftrightarrow> set (map (\<lambda>ev. url (snd ev)) evs)
            \<inter> set (film_request_urls (snd (run_pages (init_spider seeds mi mp sh sr) evs))) = {})"
proof -
  have g: "seen_list_pages (fst (run_pages s evs))
      = seen_list_pages s \<union> set (map (\<lambda>ev. url (snd ev)) evs)
    \<and> seen_film_urls (fst (run_pages s evs))
      = seen_film_urls s \<union> set (film_request_urls (snd (run_pages s evs)))" for s
    using run_pages_step[OF run_pages_fst_snd, of s evs] by blast
  have i: "seen_list_pages (init_spider seeds mi mp sh sr) = {}"
    "seen_film_urls (init_spider seeds mi mp sh sr) = {}"
    by (simp_all add: init_spider_def)
  have "seen_list_pages (fst (run_pages (init_spider seeds mi mp sh sr) evs))
      = set (map (\<lambda>ev. url (snd ev)) evs)"
    "seen_film_urls (fst (run_pages (init_spider seeds mi mp sh sr) evs))
      = set (film_request_urls (snd (run_pages (init_spider seeds mi mp sh sr) evs)))"
    using g[of "init_spider seeds mi mp sh sr"] i by simp_all
  then have "seen_list_pages (fst (run_pages (init_spider seeds mi mp sh sr) evs))
        \<inter> seen_film_urls (fst (run_pages (init_spider seeds mi mp sh sr) evs)) = {}
      \<longleftrightarrow> set (map (\<lambda>ev. url (snd ev)) evs)
            \<inter> set (film_request_urls (snd (run_pages (init_spider seeds mi mp sh sr) evs))) = {}"
    by simp
  with g[of sp] show ?thesis by blast
qed

theorem visited_sets_characterised_witness:
  "seen_list_pages (fst (run_pages (init_spider [] 250 12 False 1) [(keep_order, ten_films_page)]))
     \<inter> seen_film_urls (fst (run_pages (init_spider [] 250 12 False 1) [(keep_order, ten_films_page)]))
   = {}"
proof -
  have "set (map (\<lambda>ev. url (snd ev)) [(keep_order, ten_films_page)])
      \<inter> set (film_request_urls (snd (run_pages (init_spider [] 250 12 False 1)
               [(keep_order, ten_films_page)]))) = {}"
    by code_simp
  with visited_sets_characterised[of "init_spider [] 250 12 False 1"
      "[(keep_order, ten_films_page)]" "[]" 250 12 False 1]
  show ?thesis by blast
qed

lemma film_candidates_visit: "film_candidates nd (visit sp r) r = film_candidates nd sp r"
  by (simp add: film_candidates_def sample_films_def visit_def)

lemma pow2_pos: "0 < pow2 e"
  by (simp add: pow2_def)

lemma round_half_even_nonneg: "0 \<le> m \<Longrightarrow> 0 \<le> round_half_even m"
  by (simp add: round_half_even_def Let_def)

lemma round_double_nonneg: "0 \<le> x \<Longrightarrow> 0 \<le> round_double x"
proof (cases "x = 0")
  case False
  assume "0 \<le> x"
  with False have x: "0 < x" by simp
  define q where "q = max (ilog2 \<bar>x\<bar> - 52) (- 1074)"
  have "0 \<le> \<bar>x\<bar> / pow2 q" using pow2_pos[of q] by simp
  then have "0 \<le> round_half_even (\<bar>x\<bar> / pow2 q)" by (rule round_half_even_nonneg)
  then have "0 \<le> of_int (round_half_even (\<bar>x\<bar> / pow2 q)) * pow2 q"
    using pow2_pos[of q] by simp
  with x False show ?thesis by (simp add: round_double_def Let_def q_def)
qed (simp add: round_double_def)

lemma float_mul_nonneg: "0 \<le> x \<Longrightarrow> 0 \<le> float_mul n x"
  unfolding float_mul_def
  by (intro round_double_nonneg mult_nonneg_nonneg) simp_all

lemma float_mul_examples:
  "float_mul 10 (1 / 2) = 5
   \<and> round_double (7 / 10) = 3152519739159347 / 4503599627370496
   \<and> \<lfloor>float_mul 10 (3152519739159347 / 4503599627370496)\<rfloor> = 7
   \<and> \<lfloor>(10 :: rat) * (3152519739159347 / 4503599627370496)\<rfloor> = 6
   \<and> round_double (29 / 100) = 5224175567749775 / 18014398509481984
   \<and> \<lfloor>float_mul 100 (5224175567749775 / 18014398509481984)\<rfloor> = 28"
  by code_simp

lemma sample_films_prefix:
  assumes "0 < sample_rate sp" "sample_rate sp < 1"
  shows "sample_films sp fs
     = take (nat (max 1 \<lfloor>float_mul (length fs) (sample_rate sp)\<rfloor>)) fs"
proof -
  have "0 \<le> float_mul (length fs) (sample_rate sp)"
    using assms(1) by (intro float_mul_nonneg) simp
  then show ?thesis using assms by (simp add: sample_films_def py_int_of_def Let_def)
qed

lemma parse_list_page_film_urls:
  assumes "url r \<notin> seen_list_pages sp" "pages_crawled sp < max_pages sp"
  shows "film_request_urls (snd (parse_list_page nd sp r))
     = film_request_urls (snd (schedule_films (visit sp r) (film_candidates nd sp r)))"
proof -
  obtain sp2 film_reqs where
    sf: "schedule_films (visit sp r) (film_candidates nd (visit sp r) r) = (sp2, film_reqs)"
    by (cases "schedule_films (visit sp r) (film_candidates nd (visit sp r) r)")
  from assms(2) have np: "\<not> pages_crawled sp + 1 > max_pages sp" by simp
  have "film_request_urls (dispatch_next sp2 us) = []" for us
    using dispatch_next_props[of sp2 us] by blast
  then have "film_request_urls (snd (parse_list_page nd sp r)) = film_request_urls film_reqs"
    unfolding parse_list_page_new[OF assms(1) np sf]
    by (simp add: film_request_urls_simps)
  with sf show ?thesis by (simp add: film_candidates_visit)
qed

lemma film_request_urls_map: "film_request_urls (map FilmRequest us) = us"
  by (induction us) (simp_all add: film_request_urls_simps)

lemma half_of_ten:
  assumes "sample_rate sp = 1 / 2" "length fs = 10"
  shows "sample_films sp fs = take 5 fs"
proof -
  have "sample_films sp fs = take (nat (max 1 \<lfloor>float_mul (length fs) (sample_rate sp)\<rfloor>)) fs"
    using assms(1) by (intro sample_films_prefix) simp_all
  moreover have "float_mul (length fs) (sample_rate sp) = 5"
    unfolding assms using float_mul_examples by blast
  then have "\<lfloor>float_mul (length fs) (sample_rate sp)\<rfloor> = 5" by simp
  ultimately show ?thesis by simp
qed

text \<open>
  C5: with a sample rate between 0 and 1 (the data model has it in (0, 1]; the guard
  of the code is \<open>0.0 < sample_rate < 1.0\<close>) a candidate list of length n is cut to its
  first \<open>max(1, floor(n * sample_rate))\<close> elements, the product being the one the
  program computes, of floats; the scheduling loop runs over that
  prefix of the list, shuffled or not; and with sample rate 0.5, shuffle disabled and
  10 distinct candidate URLs, none seen before, on a new page within the page budget and
  with room for 5 more items, exactly the first 5 candidates are scheduled, in order.
\<close>

theorem sampling_takes_prefix:
  "(0 < sample_rate sp \<and> sample_rate sp < 1 \<and> 1 \<le> length fs \<longrightarrow>
      sample_films sp fs = take (nat (max 1 \<lfloor>float_mul (length fs) (sample_rate sp)\<rfloor>)) fs)
   \<and> film_candidates nd sp r =
       sample_films sp (if shuffle sp then film_shuffle nd (joined_film_urls nd r)
                        else joined_film_urls nd r)
   \<and> (url r \<notin> seen_list_pages sp \<and> pages_crawled sp < max_pages sp \<longrightarrow>
        film_request_urls (snd (parse_list_page nd sp r))
          = film_request_urls (snd (schedule_films (visit sp r) (film_candidates nd sp r))))
   \<and> (sample_rate sp = 1 / 2 \<and> \<not> shuffle sp
        \<and> length (joined_film_urls nd r) = 10 \<and> distinct (joined_film_urls nd r)
        \<and> set (joined_film_urls nd r) \<inter> seen_film_urls sp = {}
        \<and> url r \<notin> seen_list_pages sp \<and> pages_crawled sp < max_pages sp
        \<and> items_scheduled sp + 5 \<le> max_items sp \<longrightarrow>
        film_request_urls (snd (parse_list_page nd sp r)) = take 5 (joined_film_urls nd r))"
proof (intro conjI impI)
  assume "0 < sample_rate sp \<and> sample_rate sp < 1 \<and> 1 \<le> length fs"
  then show "sample_films sp fs = take (nat (max 1 \<lfloor>float_mul (length fs) (sample_rate sp)\<rfloor>)) fs"
    using sample_films_prefix by blast
next
  show "film_candidates nd sp r =
       sample_films sp (if shuffle sp then film_shuffle nd (joined_film_urls nd r)
                        else joined_film_urls nd r)"
    by (simp add: film_candidates_def)
next
  assume "url r \<notin> seen_list_pages sp \<and> pages_crawled sp < max_pages sp"
  then show "film_request_urls (snd (parse_list_page nd sp r))
          = film_request_urls (snd (schedule_films (visit sp r) (film_candidates nd sp r)))"
    using parse_list_page_film_urls by blast
next
  assume a: "sample_rate sp = 1 / 2 \<and> \<not> shuffle sp
        \<and> length (joined_film_urls nd r) = 10 \<and> distinct (joined_film_urls nd r)
        \<and> set (joined_film_urls nd r) \<inter> seen_film_urls sp = {}
        \<and> url r \<notin> seen_list_pages sp \<and> pages_crawled sp < max_pages sp
        \<and> items_scheduled sp + 5 \<le> max_items sp"
  define fs where "fs = joined_film_urls nd r"
  from a have sr: "sample_rate sp = 1 / 2" and ns: "\<not> shuffle sp" and len: "length fs = 10"
    and dist: "distinct fs" and fresh: "set fs \<inter> seen_film_urls sp = {}"
    and new: "url r \<notin> seen_list_pages sp" and pg: "pages_crawled sp < max_pages sp"
    and room: "items_scheduled sp + 5 \<le> max_items sp"
    unfolding fs_def by blast+
  have cand: "film_candidates nd sp r = take 5 fs"
    using ns half_of_ten[OF sr len] by (simp add: film_candidates_def fs_def)
  have d5: "distinct (take 5 fs)" using dist by simp
  have f5: "set (take 5 fs) \<inter> seen_film_urls (visit sp r) = {}"
    using fresh set_take_subset[of 5 fs] by (auto simp: visit_def)
  have l5: "length (take 5 fs) = 5" using len by simp
  have r5: "items_scheduled (visit sp r) + int (length (take 5 fs)) \<le> max_items (visit sp r)"
    unfolding l5 using room by (simp add: visit_def)
  have "snd (schedule_films (visit sp r) (take 5 fs)) = map FilmRequest (take 5 fs)"
    using d5 f5 r5 by (rule schedule_films_all)
  then have "film_request_urls (snd (parse_list_page nd sp r)) = take 5 fs"
    unfolding parse_list_page_film_urls[OF new pg] cand by (simp add: film_request_urls_map)
  then show "film_request_urls (snd (parse_list_page nd sp r)) = take 5 (joined_film_urls nd r)"
    unfolding fs_def .
qed

lemma ten_films_joined: "joined_film_urls keep_order ten_films_page = map host_join ten_hrefs"
  by (simp add: joined_film_urls_def film_paths_def keep_order_def ten_films_page_def
        ten_hrefs_def before_query_def startswith_def)

theorem sampling_takes_prefix_witness:
  "film_request_urls (snd (parse_list_page keep_order (init_spider [] 250 12 False (1 / 2))
       ten_films_page))
   = [''https://www.senscritique.com/film/a/1'', ''https://www.senscritique.com/film/b/2'',
      ''https://www.senscritique.com/film/c/3'', ''https://www.senscritique.com/film/d/4'',
      ''https://www.senscritique.com/film/e/5'']"
proof -
  define sp where "sp = init_spider [] 250 12 False (1 / 2)"
  have j: "joined_film_urls keep_order ten_films_page = map host_join ten_hrefs"
    by (rule ten_films_joined)
  have h: "sample_rate sp = 1 / 2 \<and> \<not> shuffle sp
        \<and> length (joined_film_urls keep_order ten_films_page) = 10
        \<and> distinct (joined_film_urls keep_order ten_films_page)
        \<and> set (joined_film_urls keep_order ten_films_page) \<inter> seen_film_urls sp = {}
        \<and> url ten_films_page \<notin> seen_list_pages sp \<and> pages_crawled sp < max_pages sp
        \<and> items_scheduled sp + 5 \<le> max_items sp"
    unfolding j by (simp add: sp_def init_spider_def ten_hrefs_def host_join_def)
  from sampling_takes_prefix[of sp "[]" keep_order ten_films_page] h
  have "film_request_urls (snd (parse_list_page keep_order sp ten_films_page))
      = take 5 (joined_film_urls keep_order ten_films_page)" by blast
  then show ?thesis unfolding j sp_def by (simp add: ten_hrefs_def host_join_def)
qed

section \<open>The film-page extractor: proofs\<close>

lemma try_bind_Inr: "try_bind (Inr x) f = f x" by (simp add: try_bind_def)
lemma try_bind_Inl: "try_bind (Inl e) f = Inl e" by (simp add: try_bind_def)

lemma put_title_ok: "\<exists>i. put_title lib v item = Inr i \<and> i ''url'' = item ''url''"
  by (cases v) (auto simp: put_title_def is_str_def strip_method_def try_bind_def Let_def
        split: prod.splits option.splits)

lemma put_year_ok: "\<exists>i. put_year lib v item = Inr i \<and> i ''url'' = item ''url''"
  by (auto simp: put_year_def split: option.splits)

lemma put_poster_ok: "\<exists>i. put_poster lib v item = Inr i \<and> i ''url'' = item ''url''"
proof (cases v)
  case (JDict d)
  then show ?thesis
    by (cases "py_get d ''url''"; cases "case py_get d ''url'' of JList xs \<Rightarrow> xs | _ \<Rightarrow> []")
       (auto simp: put_poster_def is_dict_def is_list_def get_method_def getitem_0_def
          try_bind_def truthy_def)
next
  case (JList xs)
  then show ?thesis
    by (cases xs)
       (auto simp: put_poster_def is_dict_def is_list_def get_method_def getitem_0_def
          try_bind_def truthy_def)
qed (auto simp: put_poster_def is_dict_def is_list_def try_bind_def)

lemma put_description_ok: "\<exists>i. put_description lib v item = Inr i \<and> i ''url'' = item ''url''"
  by (simp add: put_description_def)

lemma collect_ok:
  assumes "\<And>x. \<exists>ys. f x = Inr ys"
  shows "\<exists>zs. collect f xs = Inr zs"
proof (induction xs)
  case (Cons x xs)
  from assms[of x] obtain ys where "f x = Inr ys" by blast
  with Cons show ?case by (auto simp: try_bind_def)
qed simp

lemma genre_entry_ok: "\<exists>ys. genre_entry g = Inr ys"
  by (cases g) (auto simp: genre_entry_def is_str_def strip_method_def try_bind_def)

lemma put_genres_ok: "\<exists>i. put_genres lib v item = Inr i \<and> i ''url'' = item ''url''"
proof -
  from collect_ok[of genre_entry "as_list v"] genre_entry_ok
  obtain zs where "collect genre_entry (as_list v) = Inr zs" by blast
  then show ?thesis by (simp add: put_genres_def try_bind_def)
qed

lemma person_entry_ok: "\<exists>ys. person_entry lib d = Inr ys"
proof (cases d)
  case (JDict kv)
  then show ?thesis
    by (cases "map_of kv ''name''")
       (auto simp: person_entry_def is_dict_def is_str_def get_method_def getitem_key_def
          py_get_def try_bind_def truthy_def)
qed (auto simp: person_entry_def is_dict_def is_str_def strip_method_def try_bind_def)

lemma put_people_ok:
  "key \<noteq> ''url'' \<Longrightarrow> \<exists>i. put_people key lib v item = Inr i \<and> i ''url'' = item ''url''"
proof -
  assume k: "key \<noteq> ''url''"
  from collect_ok[of "person_entry lib" "as_list v"] person_entry_ok
  obtain zs where "collect (person_entry lib) (as_list v) = Inr zs" by blast
  with k show ?thesis by (simp add: put_people_def try_bind_def)
qed

lemma put_rating_ok: "\<exists>i. put_rating lib v item = Inr i \<and> i ''url'' = item ''url''"
  by (cases v) (auto simp: put_rating_def is_dict_def get_method_def try_bind_def truthy_def Let_def)

lemma put_duration_cases:
  "(\<exists>e. put_duration lib v item = Inl e
        \<and> iso8601_duration_to_minutes (int_max_str_digits lib) v = Inl e)
   \<or> (\<exists>i. put_duration lib v item = Inr i \<and> i ''url'' = item ''url'')"
  by (cases "iso8601_duration_to_minutes (int_max_str_digits lib) v")
     (auto simp: put_duration_def try_bind_def)

lemma fill_from_movie_cases:
  "(\<exists>e. fill_from_movie lib movie item = Inl e
        \<and> iso8601_duration_to_minutes (int_max_str_digits lib) (py_get movie ''duration'') = Inl e)
   \<or> (\<exists>i. fill_from_movie lib movie item = Inr i \<and> i ''url'' = item ''url'')"
proof -
  obtain i1 where 1: "put_title lib (py_get movie ''name'') item = Inr i1"
    and u1: "i1 ''url'' = item ''url''" using put_title_ok by blast
  obtain i2 where 2: "put_year lib (py_get movie ''datePublished'') i1 = Inr i2"
    and u2: "i2 ''url'' = i1 ''url''" using put_year_ok by blast
  obtain i3 where 3: "put_poster lib (py_get movie ''image'') i2 = Inr i3"
    and u3: "i3 ''url'' = i2 ''url''" using put_poster_ok by blast
  obtain i4 where 4: "put_description lib (py_get movie ''description'') i3 = Inr i4"
    and u4: "i4 ''url'' = i3 ''url''" using put_description_ok by blast
  obtain i5 where 5: "put_genres lib (py_get movie ''genre'') i4 = Inr i5"
    and u5: "i5 ''url'' = i4 ''url''" using put_genres_ok by blast
  have pre: "fill_from_movie lib movie item =
      try_bind (put_duration lib (py_get movie ''duration'') i5) (\<lambda>item.
      try_bind (put_people ''directors'' lib (py_get movie ''director'') item) (\<lambda>item.
      try_bind (put_people ''actors'' lib (py_get movie ''actor'') item) (\<lambda>item.
      put_rating lib (py_get movie ''aggregateRating'') item)))"
    unfolding fill_from_movie_def 1 2 3 4 5 try_bind_Inr ..
  from put_duration_cases[of lib "py_get movie ''duration''" i5]
  show ?thesis
  proof (elim disjE exE conjE)
    fix e assume "put_duration lib (py_get movie ''duration'') i5 = Inl e"
      and "iso8601_duration_to_minutes (int_max_str_digits lib) (py_get movie ''duration'') = Inl e"
    then show ?thesis unfolding pre by (simp add: try_bind_Inl)
  next
    fix i6 assume 6: "put_duration lib (py_get movie ''duration'') i5 = Inr i6"
      and u6: "i6 ''url'' = i5 ''url''"
    have kd: "''directors'' \<noteq> ''url''" and ka: "''actors'' \<noteq> ''url''" by simp_all
    obtain i7 where 7: "put_people ''directors'' lib (py_get movie ''director'') i6 = Inr i7"
      and u7: "i7 ''url'' = i6 ''url''" using put_people_ok[OF kd] by blast
    obtain i8 where 8: "put_people ''actors'' lib (py_get movie ''actor'') i7 = Inr i8"
      and u8: "i8 ''url'' = i7 ''url''" using put_people_ok[OF ka] by blast
    obtain i9 where 9: "put_rating lib (py_get movie ''aggregateRating'') i8 = Inr i9"
      and u9: "i9 ''url'' = i8 ''url''" using put_rating_ok by blast
    have "fill_from_movie lib movie item = Inr i9"
      unfolding pre 6 7 8 try_bind_Inr by (rule 9)
    moreover have "i9 ''url'' = item ''url''"
      using u1 u2 u3 u4 u5 u6 u7 u8 u9 by simp
    ultimately show ?thesis by blast
  qed
qed

lemma fallback_from_url: "fallback_from txt item ''url'' = item ''url''"
  by (auto simp: fallback_from_def Let_def split: prod.splits)

lemma fallback_title_year_url: "fallback_title_year page item ''url'' = item ''url''"
  by (simp add: fallback_title_year_def fallback_from_url)

lemma fallback_poster_url: "fallback_poster page item ''url'' = item ''url''"
  by (simp add: fallback_poster_def)

lemma parse_film_cases:
  "(\<exists>e movie. parse_film lib page = Inl e \<and> find_movie lib (ld_json page) = Some movie
        \<and> iso8601_duration_to_minutes (int_max_str_digits lib) (py_get movie ''duration'') = Inl e)
   \<or> (\<exists>item. parse_film lib page = Inr [item] \<and> item ''url'' = Some (JStr (film_url page)))"
proof (cases "find_movie lib (ld_json page)")
  case None
  then show ?thesis
    by (simp add: parse_film_def try_bind_def Let_def fallback_poster_url fallback_title_year_url)
next
  case (Some movie)
  define item1 where
    "item1 = (case meta_item page of None \<Rightarrow> Map.empty | Some i \<Rightarrow> i)(''url'' \<mapsto> JStr (film_url page))"
  have pf: "parse_film lib page =
      try_bind (fill_from_movie lib movie item1)
        (\<lambda>item2. Inr [fallback_poster page (fallback_title_year page item2)])"
    by (simp add: parse_film_def Let_def Some item1_def)
  from fill_from_movie_cases[of lib movie item1] show ?thesis
  proof (elim disjE exE conjE)
    fix e assume "fill_from_movie lib movie item1 = Inl e"
      and "iso8601_duration_to_minutes (int_max_str_digits lib) (py_get movie ''duration'') = Inl e"
    with Some pf show ?thesis by (simp add: try_bind_Inl)
  next
    fix i assume f: "fill_from_movie lib movie item1 = Inr i" and u: "i ''url'' = item1 ''url''"
    have "parse_film lib page = Inr [fallback_poster page (fallback_title_year page i)]"
      unfolding pf f try_bind_Inr ..
    moreover have "fallback_poster page (fallback_title_year page i) ''url''
        = Some (JStr (film_url page))"
      by (simp add: fallback_poster_url fallback_title_year_url u item1_def)
    ultimately show ?thesis by blast
  qed
qed

lemma parse_film_limit_off:
  assumes "int_max_str_digits lib = 0"
  shows "\<exists>item. parse_film lib page = Inr [item] \<and> item ''url'' = Some (JStr (film_url page))"
proof -
  have "iso8601_duration_to_minutes (int_max_str_digits lib) v \<noteq> Inl e" for v e
  proof
    assume "iso8601_duration_to_minutes (int_max_str_digits lib) v = Inl e"
    from raises_only_over_limit[OF this] assms show False
      by (auto simp: group_within_def split: option.splits)
  qed
  with parse_film_cases[of lib page] show ?thesis by blast
qed


lemma long_digits_props:
  "long_digits \<noteq> []" "list_all is_digit long_digits" "length long_digits = 4301"
  by (simp_all add: long_digits_def is_digit_def list_all_iff)

lemma long_duration_strip: "py_strip long_duration_block = long_duration_block"
proof -
  have "py_strip ([] @ long_duration_block @ []) = long_duration_block"
    by (intro py_strip_pad) (simp_all add: long_duration_block_def is_space_def)
  then show ?thesis by simp
qed

lemma long_duration_find:
  "find_movie example_lib [long_duration_block]
     = Some [(''@type'', JStr ''Movie''), (''duration'', JStr (''PT'' @ long_digits @ ''H''))]"
proof -
  have ne: "long_duration_block \<noteq> []" by (simp add: long_duration_block_def)
  have m: "is_movie [(''@type'', JStr ''Movie''), (''duration'', JStr (''PT'' @ long_digits @ ''H''))]"
    by (simp add: is_movie_def py_get_def)
  show ?thesis
    using ne m
    by (simp add: long_duration_strip example_lib_def long_duration_movie_def Let_def)
qed

lemma long_duration_raises:
  "iso8601_duration_to_minutes (int_max_str_digits example_lib)
     (py_get [(''@type'', JStr ''Movie''), (''duration'', JStr (''PT'' @ long_digits @ ''H''))]
        ''duration'') = Inl ValueError"
proof -
  have "iso8601_duration_to_minutes 4300 (JStr (''PT'' @ long_digits @ ''H'')) = Inl ValueError"
    by (rule duration_over_limit) (simp_all add: long_digits_props)
  then show ?thesis by (simp add: py_get_def example_lib_def)
qed

lemma fill_from_movie_raises:
  assumes "iso8601_duration_to_minutes (int_max_str_digits lib) (py_get movie ''duration'') = Inl e"
  shows "fill_from_movie lib movie item = Inl e"
proof -
  obtain i1 where 1: "put_title lib (py_get movie ''name'') item = Inr i1"
    using put_title_ok by blast
  obtain i2 where 2: "put_year lib (py_get movie ''datePublished'') i1 = Inr i2"
    using put_year_ok by blast
  obtain i3 where 3: "put_poster lib (py_get movie ''image'') i2 = Inr i3"
    using put_poster_ok by blast
  obtain i4 where 4: "put_description lib (py_get movie ''description'') i3 = Inr i4"
    using put_description_ok by blast
  obtain i5 where 5: "put_genres lib (py_get movie ''genre'') i4 = Inr i5"
    using put_genres_ok by blast
  have 6: "put_duration lib (py_get movie ''duration'') i5 = Inl e"
    using assms by (simp add: put_duration_def try_bind_Inl)
  show ?thesis
    unfolding fill_from_movie_def 1 2 3 4 5 6 try_bind_Inr try_bind_Inl ..
qed

lemma parse_film_raises:
  assumes "find_movie lib (ld_json page) = Some movie"
    "iso8601_duration_to_minutes (int_max_str_digits lib) (py_get movie ''duration'') = Inl e"
  shows "parse_film lib page = Inl e"
  by (simp add: parse_film_def Let_def assms(1) fill_from_movie_raises[OF assms(2)] try_bind_Inl)


text \<open>
  C7: the extractor can raise.  On a film page whose Movie object has a duration with a
  group of 4301 digits, under the default limit of 4300 digits, the conversion
  \<open>int(m.group(1) or 0)\<close> of the duration parser raises \<open>ValueError\<close>; nothing in
  \<open>parse_film\<close> guards the call, so the exception leaves the callback and no record is
  yielded.  By \<open>parse_film_cases\<close> this is the only exception that leaves \<open>parse_film\<close>,
  and by \<open>parse_film_limit_off\<close> there is none when the limit is switched off.
\<close>

theorem parse_film_raises_on_long_duration:
  "parse_film example_lib long_duration_page = Inl ValueError
   \<and> length long_digits = 4301 \<and> int_max_str_digits example_lib = 4300"
proof -
  have ld: "ld_json long_duration_page = [long_duration_block]"
    by (simp add: long_duration_page_def)
  have "find_movie example_lib (ld_json long_duration_page)
      = Some [(''@type'', JStr ''Movie''), (''duration'', JStr (''PT'' @ long_digits @ ''H''))]"
    unfolding ld by (rule long_duration_find)
  from parse_film_raises[OF this long_duration_raises]
  have "parse_film example_lib long_duration_page = Inl ValueError" .
  then show ?thesis by (simp add: long_digits_props example_lib_def)
qed



end
